theory Spec2Isabelle
  imports Main "HOL-Library.Word"
begin

section \<open>The AMQP socket client: frame reassembly and transport lifecycle\<close>

text \<open>
  A shallow embedding of \<^verbatim>\<open>src/amqp-socket-client.mjs\<close>. JavaScript numbers that
  hold cursors and sizes are integers (they may become negative, so they are \<open>int\<close>);
  a \<^verbatim>\<open>Buffer\<close> is the list of its bytes, of fixed length; closure variables and object
  fields are passed as explicit state; a \<^verbatim>\<open>throw\<close> is a result value.
\<close>

subsection \<open>Platform primitives: Buffer.copy, Buffer.readInt32BE, DataView\<close>

type_synonym byte = "8 word"

text \<open>
  The errors the read callback can end with: its own three \<^verbatim>\<open>throw\<close> statements, which
  carry the values they print, and the \<^verbatim>\<open>RangeError\<close> of a Node primitive called out of
  range.
\<close>

datatype error =
    CopiedZeroHeaderRest int int int
  | CopiedZeroHeaderStart int int int
  | CopiedZeroFrame int int int int int
  | RangeError

text \<open>
  \<^verbatim>\<open>source.copy(target, targetStart, sourceStart, sourceEnd)\<close> of Node: a negative
  argument or a \<^verbatim>\<open>sourceStart\<close> beyond the source raises; otherwise the count copied
  is clamped to the room left in the target and to the bytes left in the source, and
  the count is returned. The target is updated in place: here it is returned.
\<close>

definition buf_copy :: "byte list \<Rightarrow> byte list \<Rightarrow> int \<Rightarrow> int \<Rightarrow> int \<Rightarrow> error + (int \<times> byte list)" where
  "buf_copy source target targetStart sourceStart sourceEnd =
     (if targetStart < 0 \<or> sourceStart < 0 \<or> int (length source) < sourceStart \<or> sourceEnd < 0
      then Inl RangeError
      else if int (length target) \<le> targetStart \<or> sourceEnd \<le> sourceStart
      then Inr (0, target)
      else
        let nb = min (min (sourceEnd - sourceStart) (int (length target) - targetStart))
                     (int (length source) - sourceStart)
        in Inr (nb, take (nat targetStart) target
                    @ take (nat nb) (drop (nat sourceStart) source)
                    @ drop (nat (targetStart + nb)) target))"

text \<open>The unsigned value of four bytes, most significant first.\<close>

definition be32 :: "byte \<Rightarrow> byte \<Rightarrow> byte \<Rightarrow> byte \<Rightarrow> int" where
  "be32 a b c d = uint a * 16777216 + uint b * 65536 + uint c * 256 + uint d"

text \<open>
  \<^verbatim>\<open>buf.readInt32BE(offset)\<close>: the four bytes at \<^verbatim>\<open>offset\<close> as a signed (two's
  complement) 32-bit integer; an offset that leaves fewer than four bytes raises.
\<close>

definition readInt32BE :: "byte list \<Rightarrow> int \<Rightarrow> error + int" where
  "readInt32BE buf offset =
     (if offset < 0 \<or> int (length buf) < offset + 4 then Inl RangeError
      else let i = nat offset in
        Inr (sint (word_of_int (be32 (buf ! i) (buf ! (i + 1)) (buf ! (i + 2)) (buf ! (i + 3))) :: 32 word)))"

text \<open>
  \<^verbatim>\<open>new AMQPView(buffer, byteOffset, byteLength)\<close>: \<^verbatim>\<open>AMQPView\<close> is a \<^verbatim>\<open>DataView\<close>, whose
  constructor raises on a negative length or a range that leaves the buffer. The
  view is what its reader can observe: the bytes of that range. The callback gives
  it \<^verbatim>\<open>buf.buffer\<close> at \<^verbatim>\<open>buf.byteOffset + bufPos\<close>, or \<^verbatim>\<open>frameBuffer.buffer\<close> at 0; a buffer
  of 16384 bytes is too large for Node's pool and starts its \<^verbatim>\<open>ArrayBuffer\<close>, so in both
  cases the offset is one into the bytes of the \<^verbatim>\<open>Buffer\<close> itself.
\<close>

definition new_view :: "byte list \<Rightarrow> int \<Rightarrow> int \<Rightarrow> error + byte list" where
  "new_view buffer byteOffset byteLength =
     (if byteOffset < 0 \<or> byteLength < 0 \<or> int (length buffer) < byteOffset + byteLength
      then Inl RangeError
      else Inr (take (nat byteLength) (drop (nat byteOffset) buffer)))"

subsection \<open>The reassembly state and the read callback\<close>

text \<open>
  The variables \<^verbatim>\<open>framePos\<close>, \<^verbatim>\<open>frameSize\<close> and \<^verbatim>\<open>frameBuffer\<close> of \<^verbatim>\<open>connectSocket\<close>,
  which the read callback closes over, and \<open>dispatched\<close>: the views handed to
  \<^verbatim>\<open>parseFrames\<close> so far, oldest first.
\<close>

record reasm =
  framePos :: int
  frameSize :: int
  frameBuffer :: "byte list"
  dispatched :: "byte list list"

text \<open>
  Modelled from the spec: \<^verbatim>\<open>parseFrames\<close> of \<^verbatim>\<open>AMQPBaseClient\<close>
  (\<^verbatim>\<open>amqp-base-client.mjs\<close>, not among the sources) is the frame dispatch sink, which
  consumes each assembled frame synchronously, in arrival order, and returns. The
  model records the bytes of the view it was given.
\<close>

definition parseFrames :: "byte list \<Rightarrow> reasm \<Rightarrow> reasm" where
  "parseFrames view s = s\<lparr>dispatched := dispatched s @ [view]\<rparr>"

definition frameBuffer_capacity :: nat where
  "frameBuffer_capacity = 16384"

definition read_buffer_capacity :: nat where
  "read_buffer_capacity = 128 * 1024"

text \<open>
  The expression \<^verbatim>\<open>b.readInt32BE(pos + 3) + 8\<close>, which the callback evaluates at
  source line 73 (on \<^verbatim>\<open>frameBuffer\<close>, at 0) and at line 84 (on the chunk, at \<^verbatim>\<open>bufPos\<close>).
\<close>

definition read_frameSize :: "byte list \<Rightarrow> int \<Rightarrow> error + int" where
  "read_frameSize b pos =
     (case readInt32BE b (pos + 3) of Inl e \<Rightarrow> Inl e | Inr len \<Rightarrow> Inr (len + 8))"

text \<open>How one pass through the body of the \<^verbatim>\<open>while\<close> loop ends.\<close>

datatype flow =
    Continue int reasm
  | Break reasm
  | Throw error reasm

text \<open>
  The tail of the loop body (the copy into \<^verbatim>\<open>frameBuffer\<close>, source lines 96 to 106),
  reached when \<^verbatim>\<open>frameSize\<close> is known and the frame was not dispatched from the chunk.
\<close>

definition copy_accumulate :: "int \<Rightarrow> byte list \<Rightarrow> int \<Rightarrow> reasm \<Rightarrow> flow" where
  "copy_accumulate bytesWritten buf bufPos s =
     (let leftOfFrame = frameSize s - framePos s;
          copyBytes = min leftOfFrame (bytesWritten - bufPos)
      in case buf_copy buf (frameBuffer s) (framePos s) bufPos (bufPos + copyBytes) of
           Inl e \<Rightarrow> Throw e s
         | Inr (copied, fb) \<Rightarrow>
             if copied = 0
             then Throw (CopiedZeroFrame (frameSize s) (framePos s) bufPos copyBytes bytesWritten) s
             else
               let s1 = s\<lparr>framePos := framePos s + copied, frameBuffer := fb\<rparr> in
               if framePos s1 = frameSize s1
               then (case new_view (frameBuffer s1) 0 (frameSize s1) of
                       Inl e \<Rightarrow> Throw e s1
                     | Inr view \<Rightarrow>
                         Continue (bufPos + copied)
                           ((parseFrames view s1)\<lparr>framePos := 0, frameSize := 0\<rparr>))
               else Continue (bufPos + copied) s1)"

text \<open>The body of the loop, for the cursor \<^verbatim>\<open>bufPos\<close> (source lines 65 to 106).\<close>

definition iteration :: "int \<Rightarrow> byte list \<Rightarrow> int \<Rightarrow> reasm \<Rightarrow> flow" where
  "iteration bytesWritten buf bufPos s =
     (if frameSize s = 0 then
        if framePos s \<noteq> 0 then
          (case buf_copy buf (frameBuffer s) (framePos s) bufPos (bufPos + 7 - framePos s) of
             Inl e \<Rightarrow> Throw e s
           | Inr (copied, fb) \<Rightarrow>
               if copied = 0
               then Throw (CopiedZeroHeaderRest (framePos s) bufPos bytesWritten) s
               else
                 let s1 = s\<lparr>framePos := framePos s + copied, frameBuffer := fb\<rparr> in
                 (case read_frameSize (frameBuffer s1) 0 of
                    Inl e \<Rightarrow> Throw e s1
                  | Inr sz \<Rightarrow> Continue (bufPos + copied) (s1\<lparr>frameSize := sz\<rparr>)))
        else if bytesWritten < bufPos + 3 + 4 then
          (case buf_copy buf (frameBuffer s) (framePos s) bufPos bytesWritten of
             Inl e \<Rightarrow> Throw e s
           | Inr (copied, fb) \<Rightarrow>
               if copied = 0
               then Throw (CopiedZeroHeaderStart (framePos s) bufPos bytesWritten) s
               else Break (s\<lparr>framePos := framePos s + copied, frameBuffer := fb\<rparr>))
        else
          (case read_frameSize buf bufPos of
             Inl e \<Rightarrow> Throw e s
           | Inr sz \<Rightarrow>
               let s1 = s\<lparr>frameSize := sz\<rparr> in
               if frameSize s1 \<le> bytesWritten - bufPos
               then (case new_view buf bufPos (frameSize s1) of
                       Inl e \<Rightarrow> Throw e s1
                     | Inr view \<Rightarrow>
                         Continue (bufPos + frameSize s1)
                           ((parseFrames view s1)\<lparr>framePos := 0, frameSize := 0\<rparr>))
               else copy_accumulate bytesWritten buf bufPos s1)
      else copy_accumulate bytesWritten buf bufPos s)"

text \<open>How a call of the read callback ends, with the state it leaves behind.\<close>

datatype outcome =
    Returned reasm
  | Thrown error reasm

text \<open>
  The \<^verbatim>\<open>while (bufPos < bytesWritten)\<close> loop. Nothing in the source bounds its number
  of passes, so the model is a partial function: \<open>None\<close> is a loop that never ends.
\<close>

partial_function (option) onread_loop :: "int \<Rightarrow> byte list \<Rightarrow> int \<Rightarrow> reasm \<Rightarrow> outcome option" where
  "onread_loop bytesWritten buf bufPos s =
     (if bufPos < bytesWritten then
        (case iteration bytesWritten buf bufPos s of
           Continue bufPos' s' \<Rightarrow> onread_loop bytesWritten buf bufPos' s'
         | Break s' \<Rightarrow> Some (Returned s')
         | Throw e s' \<Rightarrow> Some (Thrown e s'))
      else Some (Returned s))"

text \<open>The callback of \<^verbatim>\<open>onread\<close>: the loop, started at \<^verbatim>\<open>bufPos = 0\<close>.\<close>

definition onread_callback :: "int \<Rightarrow> byte list \<Rightarrow> reasm \<Rightarrow> outcome option" where
  "onread_callback bytesWritten buf s = onread_loop bytesWritten buf 0 s"

subsection \<open>The socket's side of \<^verbatim>\<open>onread\<close>\<close>

text \<open>
  The state of the closure when \<^verbatim>\<open>connectSocket\<close> returns. \<^verbatim>\<open>Buffer.allocUnsafe\<close> does
  not initialise the memory, so the first contents of \<^verbatim>\<open>frameBuffer\<close> are a parameter.
\<close>

definition connectSocket_state :: "byte list \<Rightarrow> reasm" where
  "connectSocket_state fb = \<lparr>framePos = 0, frameSize = 0, frameBuffer = fb, dispatched = []\<rparr>"

text \<open>
  With the \<^verbatim>\<open>onread\<close> option Node stores each chunk it reads at the start of the one
  buffer given in the options, leaves the rest of that buffer as it was, and calls
  the callback with the number of bytes stored and the buffer.
\<close>

definition deliver :: "byte list \<Rightarrow> byte list \<Rightarrow> byte list" where
  "deliver chunk buffer = chunk @ drop (length chunk) buffer"

text \<open>
  The chunks of a stream, read one after the other. A callback that throws ends the
  reading; one that never returns leaves no result.
\<close>

fun feed :: "byte list list \<Rightarrow> byte list \<Rightarrow> reasm \<Rightarrow> outcome option" where
  "feed [] buffer s = Some (Returned s)"
| "feed (chunk # chunks) buffer s =
     (case onread_callback (int (length chunk)) (deliver chunk buffer) s of
        None \<Rightarrow> None
      | Some (Returned s') \<Rightarrow> feed chunks (deliver chunk buffer) s'
      | Some (Thrown e s') \<Rightarrow> Some (Thrown e s'))"

subsection \<open>Frames on the wire\<close>

text \<open>
  A frame is \<^verbatim>\<open>[type:1][channel:2][payload-length:4][payload][end-marker:1]\<close>: the
  payload length is the unsigned big-endian value of bytes 3 to 6, and the frame is
  that many bytes plus 8.
\<close>

definition payload_length :: "byte list \<Rightarrow> int" where
  "payload_length f = be32 (f ! 3) (f ! 4) (f ! 5) (f ! 6)"

definition wire_frame :: "byte list \<Rightarrow> bool" where
  "wire_frame f \<longleftrightarrow> 7 \<le> length f \<and> int (length f) = payload_length f + 8"

text \<open>The offset at which each list of a sequence starts in their concatenation.\<close>

fun offsets :: "nat \<Rightarrow> 'a list list \<Rightarrow> nat list" where
  "offsets b [] = []"
| "offsets b (x # xs) = b # offsets (b + length x) xs"

text \<open>
  A chunking of a frame stream completes headers when every chunk that is not empty
  and starts inside the 7-byte header of a frame holds the rest of that header: no
  header is spread over three reads.
\<close>

definition completes_headers :: "byte list list \<Rightarrow> byte list list \<Rightarrow> bool" where
  "completes_headers frames chunks \<longleftrightarrow>
     (\<forall>(b, c) \<in> set (zip (offsets 0 chunks) chunks). \<forall>h \<in> set (offsets 0 frames).
        c \<noteq> [] \<and> h < b \<and> b < h + 7 \<longrightarrow> h + 7 \<le> b + length c)"

subsection \<open>The invariant of the reassembly state\<close>

definition reasm_inv :: "reasm \<Rightarrow> bool" where
  "reasm_inv s \<longleftrightarrow>
     (0 < frameSize s \<longrightarrow> 0 \<le> framePos s \<and> framePos s \<le> frameSize s) \<and>
     (frameSize s = 0 \<longrightarrow> 0 \<le> framePos s \<and> framePos s \<le> 6)"

text \<open>
  The frame size a call decodes when it starts on a partly buffered header
  (\<^verbatim>\<open>frameSize = 0\<close>, \<^verbatim>\<open>framePos > 0\<close>) and completes it in its first pass.
\<close>

definition completed_header_size :: "int \<Rightarrow> byte list \<Rightarrow> reasm \<Rightarrow> int option" where
  "completed_header_size bytesWritten buf s =
     (if frameSize s = 0 \<and> framePos s \<noteq> 0 then
        (case iteration bytesWritten buf 0 s of
           Continue bufPos' s' \<Rightarrow> Some (frameSize s')
         | Break s' \<Rightarrow> None
         | Throw e s' \<Rightarrow> None)
      else None)"

definition state_of :: "outcome \<Rightarrow> reasm" where
  "state_of out = (case out of Returned s \<Rightarrow> s | Thrown e s \<Rightarrow> s)"

definition flow_state :: "flow \<Rightarrow> reasm" where
  "flow_state fl = (case fl of Continue bufPos' s \<Rightarrow> s | Break s \<Rightarrow> s | Throw e s \<Rightarrow> s)"

subsection \<open>The guards against a copy of no bytes\<close>

fun is_copied_zero :: "error \<Rightarrow> bool" where
  "is_copied_zero (CopiedZeroHeaderRest fp bp bw) = True"
| "is_copied_zero (CopiedZeroHeaderStart fp bp bw) = True"
| "is_copied_zero (CopiedZeroFrame fs fp bp cb bw) = True"
| "is_copied_zero RangeError = False"

text \<open>
  A pass through the loop body reaches one of the three \<^verbatim>\<open>copied === 0\<close> tests with a copy
  that moved nothing: the copy of the rest of a header (line 69), of the start of a
  header (line 78), or of a part of a frame (line 98).
\<close>

definition copied_zero :: "error + (int \<times> byte list) \<Rightarrow> bool" where
  "copied_zero r = (case r of Inl e \<Rightarrow> False | Inr (copied, fb) \<Rightarrow> copied = 0)"

definition guard_reached :: "int \<Rightarrow> byte list \<Rightarrow> int \<Rightarrow> reasm \<Rightarrow> bool" where
  "guard_reached bytesWritten buf bufPos s =
     (if frameSize s = 0 then
        if framePos s \<noteq> 0 then
          copied_zero (buf_copy buf (frameBuffer s) (framePos s) bufPos (bufPos + 7 - framePos s))
        else if bytesWritten < bufPos + 3 + 4 then
          copied_zero (buf_copy buf (frameBuffer s) (framePos s) bufPos bytesWritten)
        else
          (case read_frameSize buf bufPos of
             Inl e \<Rightarrow> False
           | Inr sz \<Rightarrow>
               bytesWritten - bufPos < sz \<and>
               copied_zero (buf_copy buf (frameBuffer s) (framePos s) bufPos
                 (bufPos + min (sz - framePos s) (bytesWritten - bufPos))))
      else
        copied_zero (buf_copy buf (frameBuffer s) (framePos s) bufPos
          (bufPos + min (frameSize s - framePos s) (bytesWritten - bufPos))))"

subsection \<open>The client: connect, send, closeSocket\<close>

text \<open>
  A JavaScript promise is pending until it is settled, and settles once: \<^verbatim>\<open>resolve\<close>
  and \<^verbatim>\<open>reject\<close> on a settled promise do nothing.
\<close>

datatype ('a, 'e) promise = Pending | Fulfilled 'a | Rejected 'e

definition resolve :: "'a \<Rightarrow> ('a, 'e) promise \<Rightarrow> ('a, 'e) promise" where
  "resolve v p = (case p of Pending \<Rightarrow> Fulfilled v | Fulfilled w \<Rightarrow> p | Rejected e \<Rightarrow> p)"

definition reject :: "'e \<Rightarrow> ('a, 'e) promise \<Rightarrow> ('a, 'e) promise" where
  "reject e p = (case p of Pending \<Rightarrow> Rejected e | Fulfilled w \<Rightarrow> p | Rejected d \<Rightarrow> p)"

text \<open>
  What a promise of this file is rejected with: the string of \<^verbatim>\<open>send\<close>, the error a
  socket write reports, or an \<^verbatim>\<open>AMQPError\<close> made from a socket error's message.
\<close>

datatype reason = Text string | WriteError string | AMQPError string

text \<open>The socket as this file uses it: the data passed to \<^verbatim>\<open>write\<close>, and whether \<^verbatim>\<open>end\<close> was called.\<close>

record net_socket =
  written :: "byte list list"
  ended :: bool

record client =
  tls :: bool
  host :: string
  port :: int
  socket :: "net_socket option"
  connectPromise :: "(unit, reason) promise option"

text \<open>
  \<^verbatim>\<open>send\<close>: the promise's executor runs at once. With a socket it passes the bytes to
  \<^verbatim>\<open>write\<close> and the promise stays pending until the write's callback; without one it
  rejects.
\<close>

definition send :: "byte list \<Rightarrow> client \<Rightarrow> (unit, reason) promise \<times> client" where
  "send bytes c =
     (case socket c of
        Some sock \<Rightarrow> (Pending, c\<lparr>socket := Some (sock\<lparr>written := written sock @ [bytes]\<rparr>)\<rparr>)
      | None \<Rightarrow> (reject (Text ''Socket not connected'') Pending, c))"

text \<open>The callback of the write, \<^verbatim>\<open>(err) => err ? reject(err) : resolve()\<close>.\<close>

definition write_callback :: "string option \<Rightarrow> (unit, reason) promise \<Rightarrow> (unit, reason) promise" where
  "write_callback err p = (case err of Some msg \<Rightarrow> reject (WriteError msg) p | None \<Rightarrow> resolve () p)"

definition closeSocket :: "client \<Rightarrow> client" where
  "closeSocket c =
     (case socket c of
        Some sock \<Rightarrow> c\<lparr>socket := Some (sock\<lparr>ended := True\<rparr>)\<rparr>
      | None \<Rightarrow> c)"

text \<open>
  \<^verbatim>\<open>connect\<close>: a new socket, stored in \<^verbatim>\<open>this.socket\<close>, and a new promise whose
  \<^verbatim>\<open>[resolve, reject]\<close> pair is stored in \<^verbatim>\<open>this.connectPromise\<close>.
\<close>

definition connect :: "client \<Rightarrow> client" where
  "connect c = c\<lparr>socket := Some \<lparr>written = [], ended = False\<rparr>, connectPromise := Some Pending\<rparr>"

text \<open>
  What happens to a connection after \<^verbatim>\<open>connect\<close>. \<open>SocketConnected\<close> runs the listener
  given to \<^verbatim>\<open>net.connect\<close>, which sends the protocol header; \<open>SocketError\<close> runs the
  listener \<^verbatim>\<open>(err) => reject(new AMQPError(err.message, this))\<close>.

  Modelled from the spec: \<open>HandshakeCompleted\<close> is the protocol engine
  (\<^verbatim>\<open>AMQPBaseClient\<close>, not among the sources) signalling that the handshake succeeded,
  which resolves the connect promise through the \<^verbatim>\<open>resolve\<close> stored in
  \<^verbatim>\<open>this.connectPromise\<close>.
\<close>

datatype socket_event = SocketConnected | SocketError string | HandshakeCompleted

fun on_event :: "socket_event \<Rightarrow> client \<Rightarrow> client" where
  "on_event SocketConnected c = snd (send [65, 77, 81, 80, 0, 0, 9, 1] c)"
| "on_event (SocketError msg) c = c\<lparr>connectPromise := map_option (reject (AMQPError msg)) (connectPromise c)\<rparr>"
| "on_event HandshakeCompleted c = c\<lparr>connectPromise := map_option (resolve ()) (connectPromise c)\<rparr>"

fun on_events :: "socket_event list \<Rightarrow> client \<Rightarrow> client" where
  "on_events [] c = c"
| "on_events (ev # evs) c = on_events evs (on_event ev c)"

subsection \<open>Predicates of the proofs\<close>

text \<open>
  The state \<open>s\<close> follows a frame stream: \<open>rest\<close> are the frames not yet dispatched, and
  \<open>p\<close> is the part of the first of them that has been received and buffered.
\<close>

definition tracks :: "reasm \<Rightarrow> byte list \<Rightarrow> byte list list \<Rightarrow> bool" where
  "tracks s p rest \<longleftrightarrow>
     length (frameBuffer s) = frameBuffer_capacity \<and>
     framePos s = int (length p) \<and> take (length p) (frameBuffer s) = p \<and>
     (p = [] \<and> rest = [] \<and> frameSize s = 0 \<or>
      (\<exists>q rs. q \<noteq> [] \<and> rest = (p @ q) # rs \<and>
         frameSize s = (if length p < 7 then 0 else int (length (p @ q)))))"

text \<open>What holds whenever the callback is left, and within its loop.\<close>

definition exit_ok :: "reasm \<Rightarrow> bool" where
  "exit_ok s \<longleftrightarrow> reasm_inv s \<and> length (frameBuffer s) = frameBuffer_capacity"

definition loop_inv :: "int \<Rightarrow> byte list \<Rightarrow> int \<Rightarrow> reasm \<Rightarrow> bool" where
  "loop_inv n buf p s \<longleftrightarrow> exit_ok s \<and>
     (frameSize s = 0 \<and> framePos s \<noteq> 0 \<longrightarrow>
        p = 0 \<and> (\<forall>v. completed_header_size n buf s = Some v \<longrightarrow> v < 0 \<or> 7 \<le> v))"

section \<open>Properties\<close>

subsection \<open>Decoding the frame size\<close>

lemma be32_bounds: "0 \<le> be32 a b c d \<and> be32 a b c d < 4294967296"
proof -
  have "uint a < 256" "uint b < 256" "uint c < 256" "uint d < 256"
    using uint_bounded [of a] uint_bounded [of b] uint_bounded [of c] uint_bounded [of d]
    by simp_all
  moreover have "0 \<le> uint a" "0 \<le> uint b" "0 \<le> uint c" "0 \<le> uint d"
    by simp_all
  ultimately show ?thesis
    unfolding be32_def by linarith
qed

lemma sint32_small:
  "0 \<le> u \<Longrightarrow> u < 2147483648 \<Longrightarrow> sint (word_of_int u :: 32 word) = u"
  by (simp add: int_word_sint)

lemma sint32_big:
  assumes "2147483648 \<le> u" "u < 4294967296"
  shows "sint (word_of_int u :: 32 word) = u - 4294967296"
proof -
  have e: "u + 2147483648 = (u - 2147483648) + 4294967296"
    by linarith
  have "(u + 2147483648) mod 4294967296 = (u - 2147483648) mod 4294967296"
    unfolding e by (rule mod_add_self2)
  also have "\<dots> = u - 2147483648"
    using assms by simp
  finally show ?thesis
    by (simp add: int_word_sint)
qed

lemma read_frameSize_signed:
  assumes "0 \<le> pos" "pos + 7 \<le> int (length b)"
  shows "read_frameSize b pos =
    Inr (if payload_length (drop (nat pos) b) < 2147483648
         then payload_length (drop (nat pos) b) + 8
         else payload_length (drop (nat pos) b) - 4294967296 + 8)"
proof -
  let ?i = "nat pos"
  have idx: "nat (pos + 3) = ?i + 3"
    using assms by simp
  have len: "?i + 7 \<le> length b"
    using assms by linarith
  have pl: "payload_length (drop ?i b)
      = be32 (b ! (?i + 3)) (b ! (?i + 4)) (b ! (?i + 5)) (b ! (?i + 6))"
    using len by (simp add: payload_length_def add.commute)
  have rd: "readInt32BE b (pos + 3)
      = Inr (sint (word_of_int (payload_length (drop ?i b)) :: 32 word))"
    using assms len by (simp add: readInt32BE_def pl idx Let_def ac_simps)
  show ?thesis
  proof (cases "payload_length (drop ?i b) < 2147483648")
    case True
    then show ?thesis
      unfolding read_frameSize_def rd using be32_bounds pl by (simp add: sint32_small)
  next
    case False
    then show ?thesis
      unfolding read_frameSize_def rd using be32_bounds pl by (simp add: sint32_big)
  qed
qed

text \<open>
  Claim C5, as stated, fails: the size is read with \<^verbatim>\<open>readInt32BE\<close>, which is signed. For
  the header \<open>01 00 00 FF FF FF FF\<close> the payload length on the wire is 4294967295, so
  the frame is 4294967303 bytes, and the callback computes 7.
\<close>

theorem frameSize_unsigned_counterexample:
  "read_frameSize [1, 0, 0, 255, 255, 255, 255] 0 = Inr 7 \<and>
   payload_length [1, 0, 0, 255, 255, 255, 255] + 8 = 4294967303"
  by (simp add: read_frameSize_def readInt32BE_def payload_length_def be32_def)

text \<open>
  Claim C5, amended: for every frame header, the computed total frame size is the
  big-endian 32-bit payload length at byte offset 3 read as a signed integer, plus 8.
  It is the unsigned payload length plus 8 for every payload length below \<open>2^31\<close>, and
  \<open>2^32\<close> less than that from \<open>2^31\<close> on.
\<close>

theorem frameSize_is_signed_length_plus_8:
  "7 \<le> length hdr \<Longrightarrow>
   read_frameSize hdr 0 =
     Inr (if payload_length hdr < 2147483648 then payload_length hdr + 8
          else payload_length hdr - 4294967296 + 8)"
  using read_frameSize_signed [of 0 hdr] by simp

text \<open>The header \<open>01 00 00 00 00 01 02\<close> announces 258 bytes of payload: a frame of 266 bytes.\<close>

theorem frameSize_is_signed_length_plus_8_witness:
  "7 \<le> length [1 :: byte, 0, 0, 0, 0, 1, 2] \<and>
   payload_length [1, 0, 0, 0, 0, 1, 2] = 258 \<and>
   read_frameSize [1, 0, 0, 0, 0, 1, 2] 0 = Inr 266"
  using frameSize_is_signed_length_plus_8 [of "[1, 0, 0, 0, 0, 1, 2]"]
  by (simp add: payload_length_def be32_def)

subsection \<open>The client's operations\<close>

text \<open>
  Claim C9: \<^verbatim>\<open>send\<close> on a client that has no socket returns a promise that is already
  rejected with "Socket not connected"; nothing is thrown and the client is left as it
  was, so that after \<^verbatim>\<open>connect\<close> the same call passes its bytes to the socket.
\<close>

theorem send_without_socket_rejects:
  "socket c = None \<Longrightarrow>
     send bytes c = (Rejected (Text ''Socket not connected''), c) \<and>
     fst (send bytes (connect c)) = Pending \<and>
     socket (snd (send bytes (connect c))) = Some \<lparr>written = [bytes], ended = False\<rparr>"
  by (simp add: send_def reject_def connect_def)

text \<open>A client that was never connected.\<close>

theorem send_without_socket_rejects_witness:
  "socket \<lparr>tls = False, host = ''localhost'', port = 5672, socket = None, connectPromise = None\<rparr> = None \<and>
   send [1, 2, 3] \<lparr>tls = False, host = ''localhost'', port = 5672, socket = None, connectPromise = None\<rparr>
     = (Rejected (Text ''Socket not connected''),
        \<lparr>tls = False, host = ''localhost'', port = 5672, socket = None, connectPromise = None\<rparr>)"
  using send_without_socket_rejects
    [of "\<lparr>tls = False, host = ''localhost'', port = 5672, socket = None, connectPromise = None\<rparr>" "[1, 2, 3]"]
  by simp

text \<open>
  Claim C10: \<^verbatim>\<open>closeSocket\<close> on a client that has no socket changes nothing; with a
  socket it only calls \<^verbatim>\<open>end\<close> on it: what was written and the connect promise stay.
\<close>

theorem closeSocket_without_socket_is_noop:
  "(socket c = None \<longrightarrow> closeSocket c = c) \<and>
   (\<forall>sock. socket c = Some sock \<longrightarrow>
      closeSocket c = c\<lparr>socket := Some (sock\<lparr>ended := True\<rparr>)\<rparr> \<and>
      written (the (socket (closeSocket c))) = written sock \<and>
      connectPromise (closeSocket c) = connectPromise c)"
  by (simp add: closeSocket_def)

text \<open>A client that was never connected, and the same client after \<^verbatim>\<open>connect\<close>.\<close>

theorem closeSocket_without_socket_is_noop_witness:
  "socket \<lparr>tls = False, host = ''localhost'', port = 5672, socket = None, connectPromise = None\<rparr> = None \<and>
   closeSocket \<lparr>tls = False, host = ''localhost'', port = 5672, socket = None, connectPromise = None\<rparr>
     = \<lparr>tls = False, host = ''localhost'', port = 5672, socket = None, connectPromise = None\<rparr> \<and>
   socket (connect \<lparr>tls = False, host = ''localhost'', port = 5672, socket = None, connectPromise = None\<rparr>)
     = Some \<lparr>written = [], ended = False\<rparr> \<and>
   socket (closeSocket (connect \<lparr>tls = False, host = ''localhost'', port = 5672, socket = None, connectPromise = None\<rparr>))
     = Some \<lparr>written = [], ended = True\<rparr>"
  using closeSocket_without_socket_is_noop
      [of "\<lparr>tls = False, host = ''localhost'', port = 5672, socket = None, connectPromise = None\<rparr>"]
    closeSocket_without_socket_is_noop
      [of "connect \<lparr>tls = False, host = ''localhost'', port = 5672, socket = None, connectPromise = None\<rparr>"]
  by (simp add: connect_def)

lemma settled_on_event:
  "connectPromise c = Some p \<Longrightarrow> p \<noteq> Pending \<Longrightarrow> connectPromise (on_event ev c) = Some p"
  by (cases ev; cases p) (simp_all add: send_def reject_def resolve_def split: option.splits)

lemma settled_on_events:
  "connectPromise c = Some p \<Longrightarrow> p \<noteq> Pending \<Longrightarrow> connectPromise (on_events evs c) = Some p"
  by (induction evs arbitrary: c) (simp_all add: settled_on_event)

lemma late_error_no_effect:
  "connectPromise c = Some p \<Longrightarrow> p \<noteq> Pending \<Longrightarrow> on_event (SocketError msg) c = c"
  by (cases p) (simp_all add: reject_def)

text \<open>
  Claim C8, as stated, fails in its last part: the \<^verbatim>\<open>error\<close> listener only calls
  \<^verbatim>\<open>reject\<close>, so a socket error after the handshake is routed nowhere. The client
  after the handshake and an error is the client after the handshake alone.
\<close>

theorem late_socket_error_goes_nowhere:
  "on_events [HandshakeCompleted, SocketError ''ECONNRESET'']
      (connect \<lparr>tls = False, host = ''localhost'', port = 5672, socket = None, connectPromise = None\<rparr>)
   = on_events [HandshakeCompleted]
      (connect \<lparr>tls = False, host = ''localhost'', port = 5672, socket = None, connectPromise = None\<rparr>)"
  by (simp add: connect_def resolve_def reject_def)

text \<open>
  Claim C8, amended: a connection holds one connect promise, which settles at most
  once. While it is pending, a socket error rejects it with the \<^verbatim>\<open>AMQPError\<close> made of
  the error's message, and the handshake's completion resolves it. Once it is
  settled, no sequence of socket events changes it, and a socket error leaves the
  whole client as it was: the listener calls \<^verbatim>\<open>reject\<close> again, to no effect.
\<close>

theorem connectPromise_settles_once:
  assumes "connectPromise c = Some p"
  shows "(p = Pending \<longrightarrow>
            connectPromise (on_event (SocketError msg) c) = Some (Rejected (AMQPError msg)) \<and>
            connectPromise (on_event HandshakeCompleted c) = Some (Fulfilled ())) \<and>
         (p \<noteq> Pending \<longrightarrow>
            connectPromise (on_events evs c) = Some p \<and> on_event (SocketError msg) c = c)"
  using assms settled_on_events [of c p evs] late_error_no_effect [of c p msg]
  by (auto simp: reject_def resolve_def)

text \<open>A handshake followed by two socket errors, and an error before the handshake.\<close>

theorem connectPromise_settles_once_witness:
  "connectPromise (on_event HandshakeCompleted
      (connect \<lparr>tls = False, host = ''localhost'', port = 5672, socket = None, connectPromise = None\<rparr>))
     = Some (Fulfilled ()) \<and>
   connectPromise (on_events [SocketError ''a'', SocketConnected, SocketError ''b'']
     (on_event HandshakeCompleted
      (connect \<lparr>tls = False, host = ''localhost'', port = 5672, socket = None, connectPromise = None\<rparr>)))
     = Some (Fulfilled ()) \<and>
   connectPromise (on_event (SocketError ''refused'')
      (connect \<lparr>tls = False, host = ''localhost'', port = 5672, socket = None, connectPromise = None\<rparr>))
     = Some (Rejected (AMQPError ''refused''))"
  using connectPromise_settles_once [of
      "on_event HandshakeCompleted
        (connect \<lparr>tls = False, host = ''localhost'', port = 5672, socket = None, connectPromise = None\<rparr>)"
      "Fulfilled ()" "''x''" "[SocketError ''a'', SocketConnected, SocketError ''b'']"]
    connectPromise_settles_once [of
      "connect \<lparr>tls = False, host = ''localhost'', port = 5672, socket = None, connectPromise = None\<rparr>"
      Pending "''refused''" "[]"]
  by (simp add: connect_def resolve_def)

subsection \<open>Evaluating the callback on given chunks\<close>

lemma replicate_small:
  "replicate 1 x = [x]" "replicate 2 x = [x, x]" "replicate 3 x = [x, x, x]"
  "replicate 4 x = [x, x, x, x]" "replicate 5 x = [x, x, x, x, x]"
  "replicate 6 x = [x, x, x, x, x, x]"
  by (simp_all add: numeral_eq_Suc)

lemmas callback_eval =
  connectSocket_state_def deliver_def onread_callback_def onread_loop.simps iteration_def
  copy_accumulate_def buf_copy_def read_frameSize_def readInt32BE_def be32_def new_view_def
  parseFrames_def replicate_small

text \<open>
  Claim C2 does not hold of the code. The 16-byte frame
  \<open>01 00 01 00 00 00 08 01 02 03 04 05 06 07 08 CE\<close> is read in chunks of 1, 2 and 13
  bytes, into buffers that held zeros. The second chunk arrives on 1 buffered header
  byte and brings 2 more, so 3 header bytes are known; the callback copies 6 bytes
  from the read buffer all the same (4 of them left over from before the chunk),
  sets \<^verbatim>\<open>framePos\<close> to 7 and decodes \<^verbatim>\<open>frameSize = 8\<close> from them. The third chunk then
  ends a frame that was never sent, and the rest is taken for the start of a frame of
  16909068 bytes.
\<close>

theorem short_chunk_on_partial_header_decodes_stale_bytes:
  "feed [[1], [0, 1]] (replicate 131072 0) (connectSocket_state (replicate 16384 0))
     = Some (Returned \<lparr>framePos = 7, frameSize = 8,
          frameBuffer = [1, 0, 1, 0, 0, 0, 0] @ replicate 16377 0, dispatched = []\<rparr>) \<and>
   feed [[1], [0, 1], [0, 0, 0, 8, 1, 2, 3, 4, 5, 6, 7, 8, 206]]
       (replicate 131072 0) (connectSocket_state (replicate 16384 0))
     = Some (Returned \<lparr>framePos = 12, frameSize = 16909068,
          frameBuffer = [0, 0, 8, 1, 2, 3, 4, 5, 6, 7, 8, 206] @ replicate 16372 0,
          dispatched = [[1, 0, 1, 0, 0, 0, 0, 0]]\<rparr>)"
  by (simp add: callback_eval)

subsection \<open>A frame size of zero\<close>

lemma zero_size_step:
  assumes "frameSize s = 0" "framePos s = 0" "0 \<le> bufPos" "bufPos + 7 \<le> bytesWritten"
    "bufPos \<le> int (length buf)" "read_frameSize buf bufPos = Inr 0"
  shows "iteration bytesWritten buf bufPos s = Continue bufPos (s\<lparr>dispatched := dispatched s @ [[]]\<rparr>)"
  using assms by (simp add: iteration_def new_view_def parseFrames_def)

lemma zero_size_never_returns:
  assumes "onread_loop bytesWritten buf bufPos s = Some out"
  shows "\<not> (frameSize s = 0 \<and> framePos s = 0 \<and> 0 \<le> bufPos \<and> bufPos + 7 \<le> bytesWritten \<and>
            bufPos \<le> int (length buf) \<and> read_frameSize buf bufPos = Inr 0)"
proof (rule onread_loop.raw_induct
    [where P = "\<lambda>n b p s out. \<not> (frameSize s = 0 \<and> framePos s = 0 \<and> 0 \<le> p \<and> p + 7 \<le> n \<and>
            p \<le> int (length b) \<and> read_frameSize b p = Inr 0)", OF _ assms])
  fix loop :: "int \<Rightarrow> byte list \<Rightarrow> int \<Rightarrow> reasm \<Rightarrow> outcome option" and n b p s out
  assume IH: "\<And>n b p s out. loop n b p s = Some out \<Longrightarrow>
      \<not> (frameSize s = 0 \<and> framePos s = 0 \<and> 0 \<le> p \<and> p + 7 \<le> n \<and>
            p \<le> int (length b) \<and> read_frameSize b p = Inr 0)"
    and eq: "(if p < n then
                (case iteration n b p s of
                   Continue bufPos' s' \<Rightarrow> loop n b bufPos' s'
                 | Break s' \<Rightarrow> Some (Returned s')
                 | Throw e s' \<Rightarrow> Some (Thrown e s'))
              else Some (Returned s)) = Some out"
  show "\<not> (frameSize s = 0 \<and> framePos s = 0 \<and> 0 \<le> p \<and> p + 7 \<le> n \<and>
            p \<le> int (length b) \<and> read_frameSize b p = Inr 0)"
  proof
    assume a: "frameSize s = 0 \<and> framePos s = 0 \<and> 0 \<le> p \<and> p + 7 \<le> n \<and>
            p \<le> int (length b) \<and> read_frameSize b p = Inr 0"
    then have "iteration n b p s = Continue p (s\<lparr>dispatched := dispatched s @ [[]]\<rparr>)"
      by (simp add: zero_size_step)
    with eq a have "loop n b p (s\<lparr>dispatched := dispatched s @ [[]]\<rparr>) = Some out"
      by simp
    from IH [OF this] a show False
      by simp
  qed
qed

text \<open>
  Claim C4 does not hold of the code. A first chunk of the seven bytes
  \<open>01 00 00 FF FF FF F8\<close> makes \<^verbatim>\<open>frameSize = -8 + 8 = 0\<close>; the test
  \<^verbatim>\<open>bytesWritten - bufPos >= frameSize\<close> holds, an empty view is dispatched, \<^verbatim>\<open>bufPos\<close>
  advances by 0 and the loop continues in the state it started from: the callback
  never returns.
\<close>

theorem zero_frameSize_loops_forever:
  "onread_callback 7 (deliver [1, 0, 0, 255, 255, 255, 248] (replicate 131072 0))
     (connectSocket_state (replicate 16384 0)) = None"
proof (cases "onread_callback 7 (deliver [1, 0, 0, 255, 255, 255, 248] (replicate 131072 0))
     (connectSocket_state (replicate 16384 0))")
  case None
  then show ?thesis .
next
  case (Some out)
  then have "onread_loop 7 (deliver [1, 0, 0, 255, 255, 255, 248] (replicate 131072 0)) 0
      (connectSocket_state (replicate 16384 0)) = Some out"
    by (simp add: onread_callback_def)
  from zero_size_never_returns [OF this] show ?thesis
    by (simp add: deliver_def connectSocket_state_def read_frameSize_def readInt32BE_def be32_def)
qed

subsection \<open>One pass through the loop body\<close>

lemma buf_copy_in_range:
  assumes "0 \<le> t" "0 \<le> p" "0 < k" "p + k \<le> int (length src)" "t + k \<le> int (length tgt)"
  shows "buf_copy src tgt t p (p + k) =
    Inr (k, take (nat t) tgt @ take (nat k) (drop (nat p) src) @ drop (nat (t + k)) tgt)"
  using assms by (simp add: buf_copy_def min_def)

lemma buf_copy_result:
  assumes "buf_copy src tgt t p e = Inr (c, fb)"
  shows "0 \<le> c \<and> length fb = length tgt \<and> (c \<noteq> 0 \<longrightarrow> c \<le> e - p \<and> 0 \<le> t \<and> t + c \<le> int (length tgt) \<and> 0 \<le> p \<and> p + c \<le> int (length src))"
  using assms by (auto simp: buf_copy_def min_def Let_def split: if_splits)

lemma copy_accumulate_in_range:
  assumes cap: "int (length (frameBuffer s)) = 16384"
    and pos: "0 \<le> bufPos" "bufPos < n" "n \<le> int (length buf)"
    and fr: "0 \<le> framePos s" "framePos s < frameSize s" "frameSize s \<le> 16384"
  defines "c \<equiv> min (frameSize s - framePos s) (n - bufPos)"
  defines "fb \<equiv> take (nat (framePos s)) (frameBuffer s) @ take (nat c) (drop (nat bufPos) buf)
                 @ drop (nat (framePos s + c)) (frameBuffer s)"
  shows "copy_accumulate n buf bufPos s =
     Continue (bufPos + c)
       (if framePos s + c = frameSize s
        then s\<lparr>framePos := 0, frameSize := 0, frameBuffer := fb,
               dispatched := dispatched s @ [take (nat (frameSize s)) fb]\<rparr>
        else s\<lparr>framePos := framePos s + c, frameBuffer := fb\<rparr>)"
proof -
  have c: "0 < c" "bufPos + c \<le> int (length buf)" "framePos s + c \<le> int (length (frameBuffer s))"
    using cap pos fr by (simp_all add: c_def)
  have cp: "buf_copy buf (frameBuffer s) (framePos s) bufPos (bufPos + c) = Inr (c, fb)"
    unfolding fb_def using buf_copy_in_range [OF fr(1) pos(1) c] .
  have lfb: "length fb = length (frameBuffer s)"
    using buf_copy_result [OF cp] by simp
  show ?thesis
    using cp c cap fr lfb
    by (simp add: copy_accumulate_def Let_def c_def [symmetric] new_view_def parseFrames_def)
qed

lemma iteration_known_size:
  "frameSize s \<noteq> 0 \<Longrightarrow> iteration n buf bufPos s = copy_accumulate n buf bufPos s"
  by (simp add: iteration_def)

lemma iteration_fresh_partial:
  assumes "frameSize s = 0" "framePos s = 0" "bufPos + 7 \<le> n" "read_frameSize buf bufPos = Inr sz"
    "n - bufPos < sz"
  shows "iteration n buf bufPos s = copy_accumulate n buf bufPos (s\<lparr>frameSize := sz\<rparr>)"
  using assms by (simp add: iteration_def)

lemma iteration_fast:
  assumes "frameSize s = 0" "framePos s = 0" "0 \<le> bufPos" "bufPos + 7 \<le> n" "n \<le> int (length buf)"
    "read_frameSize buf bufPos = Inr sz" "0 \<le> sz" "sz \<le> n - bufPos"
  shows "iteration n buf bufPos s =
    Continue (bufPos + sz) (s\<lparr>dispatched := dispatched s @ [take (nat sz) (drop (nat bufPos) buf)]\<rparr>)"
  using assms by (simp add: iteration_def new_view_def parseFrames_def)

lemma iteration_header_start:
  assumes "frameSize s = 0" "framePos s = 0" "0 \<le> bufPos" "bufPos < n" "n < bufPos + 7"
    "n \<le> int (length buf)" "7 \<le> length (frameBuffer s)"
  shows "iteration n buf bufPos s =
    Break (s\<lparr>framePos := n - bufPos,
            frameBuffer := take (nat (n - bufPos)) (drop (nat bufPos) buf)
                           @ drop (nat (n - bufPos)) (frameBuffer s)\<rparr>)"
proof -
  have "buf_copy buf (frameBuffer s) 0 bufPos (bufPos + (n - bufPos)) =
      Inr (n - bufPos, take (nat 0) (frameBuffer s) @ take (nat (n - bufPos)) (drop (nat bufPos) buf)
            @ drop (nat (0 + (n - bufPos))) (frameBuffer s))"
    using assms by (intro buf_copy_in_range) simp_all
  then show ?thesis
    using assms by (simp add: iteration_def)
qed

lemma iteration_header_rest:
  assumes "frameSize s = 0" "0 < framePos s" "framePos s < 7" "0 \<le> bufPos"
    "bufPos + 7 - framePos s \<le> int (length buf)" "7 \<le> length (frameBuffer s)"
  defines "fb \<equiv> take (nat (framePos s)) (frameBuffer s)
                 @ take (nat (7 - framePos s)) (drop (nat bufPos) buf) @ drop 7 (frameBuffer s)"
  assumes "read_frameSize fb 0 = Inr sz"
  shows "iteration n buf bufPos s =
    Continue (bufPos + 7 - framePos s) (s\<lparr>framePos := 7, frameSize := sz, frameBuffer := fb\<rparr>)"
proof -
  have "buf_copy buf (frameBuffer s) (framePos s) bufPos (bufPos + (7 - framePos s)) =
      Inr (7 - framePos s, take (nat (framePos s)) (frameBuffer s)
            @ take (nat (7 - framePos s)) (drop (nat bufPos) buf)
            @ drop (nat (framePos s + (7 - framePos s))) (frameBuffer s))"
    using assms by (intro buf_copy_in_range) simp_all
  moreover have "bufPos + (7 - framePos s) = bufPos + 7 - framePos s"
    by simp
  ultimately have "buf_copy buf (frameBuffer s) (framePos s) bufPos (bufPos + 7 - framePos s) = Inr (7 - framePos s, fb)"
    by (simp add: fb_def)
  then show ?thesis
    using assms by (simp add: iteration_def Let_def)
qed

text \<open>
  The rest of a header is copied without a look at \<^verbatim>\<open>bytesWritten\<close>: a chunk that brings
  fewer bytes than the header lacks still completes it, with bytes that the read
  buffer held from before, and the frame size is decoded from them.
\<close>

lemma short_chunk_overreads:
  assumes "frameSize s = 0" "0 < framePos s" "framePos s < 7"
    and "0 < bytesWritten" "bytesWritten < 7 - framePos s"
    and "7 - framePos s \<le> int (length buf)" "7 \<le> length (frameBuffer s)"
  shows "\<exists>s'. onread_callback bytesWritten buf s = Some (Returned s') \<and> framePos s' = 7 \<and>
           read_frameSize (frameBuffer s') 0 = Inr (frameSize s') \<and>
           take 7 (frameBuffer s') = take (nat (framePos s)) (frameBuffer s)
              @ take (nat (7 - framePos s)) buf"
proof -
  define fb where "fb = take (nat (framePos s)) (frameBuffer s)
      @ take (nat (7 - framePos s)) (drop (nat 0) buf) @ drop 7 (frameBuffer s)"
  have l: "length fb = length (frameBuffer s)"
    using assms by (simp add: fb_def)
  then obtain sz where sz: "read_frameSize fb 0 = Inr sz"
    using assms(7) by (simp add: read_frameSize_def readInt32BE_def)
  define s' where "s' = s\<lparr>framePos := 7, frameSize := sz, frameBuffer := fb\<rparr>"
  have it: "iteration bytesWritten buf 0 s = Continue (0 + 7 - framePos s) s'"
    using iteration_header_rest [of s 0 buf sz bytesWritten] assms sz
    by (simp add: s'_def fb_def)
  have "onread_loop bytesWritten buf 0 s = onread_loop bytesWritten buf (0 + 7 - framePos s) s'"
    using assms(4) it by (subst onread_loop.simps) simp
  also have "\<dots> = Some (Returned s')"
    using assms(5) by (subst onread_loop.simps) simp
  finally have "onread_callback bytesWritten buf s = Some (Returned s')"
    by (simp add: onread_callback_def)
  moreover have "take 7 fb = take (nat (framePos s)) (frameBuffer s) @ take (nat (7 - framePos s)) buf"
  proof -
    have "7 - nat (framePos s) = nat (7 - framePos s)"
      using assms(2) by linarith
    then show ?thesis
      using assms by (simp add: fb_def)
  qed
  ultimately show ?thesis
    using sz by (auto simp: s'_def)
qed

text \<open>
  Claim C3: on the copy path, entered with a frame size already known or with a header
  just decoded from a chunk that does not hold the whole frame, a pass copies exactly
  \<open>min (frameSize - framePos) (bytesWritten - bufPos)\<close> bytes from the chunk at
  \<^verbatim>\<open>bufPos\<close> into \<^verbatim>\<open>frameBuffer\<close> at \<^verbatim>\<open>framePos\<close> and advances both cursors by that count;
  when \<^verbatim>\<open>framePos\<close> reaches \<^verbatim>\<open>frameSize\<close> it dispatches the first \<^verbatim>\<open>frameSize\<close> bytes of
  \<^verbatim>\<open>frameBuffer\<close> and resets both to 0. This holds for every frame up to the negotiated
  maximum frame size \<open>frameMax\<close>, which the capacity of \<^verbatim>\<open>frameBuffer\<close> is required to
  reach. (The negotiation is not in this file: \<open>frameMax\<close> is a parameter.)
\<close>

theorem slow_path_copies_min:
  assumes cap: "length (frameBuffer s) = frameBuffer_capacity"
    and pos: "0 \<le> bufPos" "bufPos < bytesWritten" "bytesWritten \<le> int (length buf)"
    and entry: "frameSize s \<noteq> 0 \<and> s1 = s \<or>
        frameSize s = 0 \<and> framePos s = 0 \<and> bufPos + 7 \<le> bytesWritten \<and>
        read_frameSize buf bufPos = Inr sz \<and> bytesWritten - bufPos < sz \<and> s1 = s\<lparr>frameSize := sz\<rparr>"
    and fr: "0 \<le> framePos s1" "framePos s1 < frameSize s1"
    and negotiated: "frameSize s1 \<le> frameMax" "frameMax \<le> int frameBuffer_capacity"
  defines "c \<equiv> min (frameSize s1 - framePos s1) (bytesWritten - bufPos)"
  defines "fb \<equiv> take (nat (framePos s1)) (frameBuffer s1) @ take (nat c) (drop (nat bufPos) buf)
                 @ drop (nat (framePos s1 + c)) (frameBuffer s1)"
  shows "iteration bytesWritten buf bufPos s =
     Continue (bufPos + c)
       (if framePos s1 + c = frameSize s1
        then s1\<lparr>framePos := 0, frameSize := 0, frameBuffer := fb,
               dispatched := dispatched s1 @ [take (nat (frameSize s1)) fb]\<rparr>
        else s1\<lparr>framePos := framePos s1 + c, frameBuffer := fb\<rparr>)"
proof -
  have it: "iteration bytesWritten buf bufPos s = copy_accumulate bytesWritten buf bufPos s1"
    using entry by (auto simp: iteration_known_size iteration_fresh_partial)
  have cap1: "int (length (frameBuffer s1)) = 16384"
    using entry cap by (auto simp: frameBuffer_capacity_def)
  have "frameSize s1 \<le> 16384"
    using negotiated by (simp add: frameBuffer_capacity_def)
  from copy_accumulate_in_range [OF cap1 pos fr this] show ?thesis
    unfolding it c_def fb_def .
qed

text \<open>Seven bytes of a 16-byte frame are buffered; a chunk brings the other nine, or only four.\<close>

theorem slow_path_copies_min_witness:
  "iteration 9 ([1, 2, 3, 4, 5, 6, 7, 8, 206] @ replicate 131063 0) 0
     \<lparr>framePos = 7, frameSize = 16, frameBuffer = [1, 0, 1, 0, 0, 0, 8] @ replicate 16377 0, dispatched = []\<rparr>
   = Continue 9
     \<lparr>framePos = 0, frameSize = 0,
       frameBuffer = [1, 0, 1, 0, 0, 0, 8, 1, 2, 3, 4, 5, 6, 7, 8, 206] @ replicate 16368 0,
       dispatched = [[1, 0, 1, 0, 0, 0, 8, 1, 2, 3, 4, 5, 6, 7, 8, 206]]\<rparr> \<and>
   iteration 4 ([1, 2, 3, 4] @ replicate 131068 0) 0
     \<lparr>framePos = 7, frameSize = 16, frameBuffer = [1, 0, 1, 0, 0, 0, 8] @ replicate 16377 0, dispatched = []\<rparr>
   = Continue 4
     \<lparr>framePos = 11, frameSize = 16,
       frameBuffer = [1, 0, 1, 0, 0, 0, 8, 1, 2, 3, 4] @ replicate 16373 0, dispatched = []\<rparr>"
  using slow_path_copies_min [of
      "\<lparr>framePos = 7, frameSize = 16, frameBuffer = [1, 0, 1, 0, 0, 0, 8] @ replicate 16377 0, dispatched = []\<rparr>"
      0 9 "[1, 2, 3, 4, 5, 6, 7, 8, 206] @ replicate 131063 0"
      "\<lparr>framePos = 7, frameSize = 16, frameBuffer = [1, 0, 1, 0, 0, 0, 8] @ replicate 16377 0, dispatched = []\<rparr>" 0 4096]
    slow_path_copies_min [of
      "\<lparr>framePos = 7, frameSize = 16, frameBuffer = [1, 0, 1, 0, 0, 0, 8] @ replicate 16377 0, dispatched = []\<rparr>"
      0 4 "[1, 2, 3, 4] @ replicate 131068 0"
      "\<lparr>framePos = 7, frameSize = 16, frameBuffer = [1, 0, 1, 0, 0, 0, 8] @ replicate 16377 0, dispatched = []\<rparr>" 0 4096]
  by (simp add: frameBuffer_capacity_def)

subsection \<open>The invariant at the exits of the callback\<close>

lemma copy_accumulate_inv:
  assumes "exit_ok s" "frameSize s \<noteq> 0"
  shows "case copy_accumulate n buf p s of
           Continue p' s' \<Rightarrow> exit_ok s' \<and> (frameSize s' = 0 \<longrightarrow> framePos s' = 0)
         | Break s' \<Rightarrow> exit_ok s'
         | Throw e s' \<Rightarrow> exit_ok s'"
proof (cases "buf_copy buf (frameBuffer s) (framePos s) p (p + min (frameSize s - framePos s) (n - p))")
  case (Inl e)
  then show ?thesis using assms by (simp add: copy_accumulate_def Let_def)
next
  case (Inr r)
  obtain c fb where r: "r = (c, fb)" by (cases r)
  note res = buf_copy_result [OF Inr [unfolded r]]
  show ?thesis
    using assms res Inr r
    by (auto simp: copy_accumulate_def Let_def exit_ok_def reasm_inv_def new_view_def parseFrames_def split: if_splits)
qed

lemma iteration_inv:
  assumes "loop_inv n buf p s"
  shows "case iteration n buf p s of
           Continue p' s' \<Rightarrow> loop_inv n buf p' s'
         | Break s' \<Rightarrow> exit_ok s'
         | Throw e s' \<Rightarrow> exit_ok s'"
proof -
  have ok: "exit_ok s"
    using assms by (simp add: loop_inv_def)
  then have inv: "reasm_inv s" and cap: "length (frameBuffer s) = 16384"
    by (simp_all add: exit_ok_def frameBuffer_capacity_def)
  consider (known) "frameSize s \<noteq> 0"
    | (rest) "frameSize s = 0" "framePos s \<noteq> 0"
    | (start) "frameSize s = 0" "framePos s = 0" "n < p + 7"
    | (fresh) "frameSize s = 0" "framePos s = 0" "p + 7 \<le> n"
    by linarith
  then show ?thesis
  proof cases
    case known
    then show ?thesis
      using copy_accumulate_inv [OF ok known, of n buf p]
      by (auto simp: iteration_known_size loop_inv_def split: flow.splits)
  next
    case rest
    then have p0: "p = 0" and hs: "\<forall>v. completed_header_size n buf s = Some v \<longrightarrow> v < 0 \<or> 7 \<le> v"
      using assms by (simp_all add: loop_inv_def)
    show ?thesis
    proof (cases "iteration n buf 0 s")
      case (Continue p' s')
      then have sz: "frameSize s' < 0 \<or> 7 \<le> frameSize s'"
        using hs rest by (simp add: completed_header_size_def)
      obtain c fb where cp: "buf_copy buf (frameBuffer s) (framePos s) 0 (0 + 7 - framePos s) = Inr (c, fb)"
        and c: "c \<noteq> 0" and s': "framePos s' = framePos s + c" "frameBuffer s' = fb"
        using Continue rest
        by (auto simp: iteration_def Let_def split: sum.splits if_splits prod.splits)
      from buf_copy_result [OF cp] c have "0 \<le> c" "c \<le> 7 - framePos s" "length fb = length (frameBuffer s)" "0 \<le> framePos s"
        by simp_all
      then show ?thesis
        using Continue sz s' cap p0 by (auto simp: loop_inv_def exit_ok_def reasm_inv_def frameBuffer_capacity_def)
    next
      case (Break s')
      then show ?thesis
        using rest by (auto simp: iteration_def Let_def split: sum.splits if_splits prod.splits)
    next
      case (Throw e s')
      then obtain c fb where "s' = s \<or> (buf_copy buf (frameBuffer s) (framePos s) 0 (0 + 7 - framePos s) = Inr (c, fb) \<and> 
            read_frameSize fb 0 = Inl e)"
        using rest
        by (auto simp: iteration_def Let_def split: sum.splits if_splits prod.splits)
      then show ?thesis
      proof
        assume "s' = s" then show ?thesis using Throw ok p0 by simp
      next
        assume a: "buf_copy buf (frameBuffer s) (framePos s) 0 (0 + 7 - framePos s) = Inr (c, fb) \<and> 
            read_frameSize fb 0 = Inl e"
        from buf_copy_result [of buf "frameBuffer s" "framePos s" 0 "0 + 7 - framePos s" c fb] a
        have "length fb = length (frameBuffer s)" by simp
        with cap a have False
          by (simp add: read_frameSize_def readInt32BE_def split: sum.splits if_splits)
        then show ?thesis ..
      qed
    qed
  next
    case start
    show ?thesis
    proof (cases "buf_copy buf (frameBuffer s) (framePos s) p n")
      case (Inl e)
      then show ?thesis using start ok by (simp add: iteration_def)
    next
      case (Inr r)
      obtain c fb where r: "r = (c, fb)" by (cases r)
      from buf_copy_result [OF Inr [unfolded r]] show ?thesis
        using start ok Inr r by (auto simp: iteration_def exit_ok_def reasm_inv_def)
    qed
  next
    case fresh
    show ?thesis
    proof (cases "read_frameSize buf p")
      case (Inl e)
      then show ?thesis using fresh ok by (simp add: iteration_def)
    next
      case (Inr sz)
      show ?thesis
      proof (cases "sz \<le> n - p")
        case True
        then show ?thesis
          using fresh ok Inr
          by (auto simp: iteration_def Let_def new_view_def parseFrames_def exit_ok_def reasm_inv_def loop_inv_def)
      next
        case False
        then have it: "iteration n buf p s = copy_accumulate n buf p (s\<lparr>frameSize := sz\<rparr>)"
          using fresh Inr by (simp add: iteration_fresh_partial)
        have "exit_ok (s\<lparr>frameSize := sz\<rparr>)" "frameSize (s\<lparr>frameSize := sz\<rparr>) \<noteq> 0"
          using False fresh ok by (simp_all add: exit_ok_def reasm_inv_def)
        from copy_accumulate_inv [OF this, of n buf p] show ?thesis
          unfolding it by (auto simp: loop_inv_def split: flow.splits)
      qed
    qed
  qed
qed

lemma loop_inv_exit:
  assumes "onread_loop n buf p s = Some out"
  shows "loop_inv n buf p s \<longrightarrow> exit_ok (state_of out)"
proof (rule onread_loop.raw_induct
    [where P = "\<lambda>n buf p s out. loop_inv n buf p s \<longrightarrow> exit_ok (state_of out)", OF _ assms])
  fix loop :: "int \<Rightarrow> byte list \<Rightarrow> int \<Rightarrow> reasm \<Rightarrow> outcome option" and n buf p s out
  assume IH: "\<And>n buf p s out. loop n buf p s = Some out \<Longrightarrow> loop_inv n buf p s \<longrightarrow> exit_ok (state_of out)"
    and eq: "(if p < n then
                (case iteration n buf p s of
                   Continue bufPos' s' \<Rightarrow> loop n buf bufPos' s'
                 | Break s' \<Rightarrow> Some (Returned s')
                 | Throw e s' \<Rightarrow> Some (Thrown e s'))
              else Some (Returned s)) = Some out"
  show "loop_inv n buf p s \<longrightarrow> exit_ok (state_of out)"
  proof
    assume inv: "loop_inv n buf p s"
    show "exit_ok (state_of out)"
    proof (cases "p < n")
      case False
      with eq inv show ?thesis by (auto simp: state_of_def loop_inv_def)
    next
      case True
      show ?thesis
      proof (cases "iteration n buf p s")
        case (Continue p' s')
        with iteration_inv [OF inv] have "loop_inv n buf p' s'" by simp
        moreover from eq True Continue have "loop n buf p' s' = Some out" by simp
        ultimately show ?thesis using IH by blast
      next
        case (Break s')
        with iteration_inv [OF inv] eq True show ?thesis by (auto simp: state_of_def)
      next
        case (Throw e s')
        with iteration_inv [OF inv] eq True show ?thesis by (auto simp: state_of_def)
      qed
    qed
  qed
qed

lemma copy_accumulate_dispatch_resets:
  "dispatched (flow_state (copy_accumulate n buf p s)) \<noteq> dispatched s \<Longrightarrow>
     framePos (flow_state (copy_accumulate n buf p s)) = 0 \<and> frameSize (flow_state (copy_accumulate n buf p s)) = 0"
  by (simp add: copy_accumulate_def flow_state_def Let_def parseFrames_def
      split: sum.splits if_splits prod.splits)

lemma dispatch_resets:
  assumes "dispatched (flow_state (iteration n buf p s)) \<noteq> dispatched s"
  shows "framePos (flow_state (iteration n buf p s)) = 0 \<and> frameSize (flow_state (iteration n buf p s)) = 0"
proof -
  consider (known) "frameSize s \<noteq> 0"
    | (rest) "frameSize s = 0" "framePos s \<noteq> 0"
    | (start) "frameSize s = 0" "framePos s = 0" "n < p + 7"
    | (fresh) "frameSize s = 0" "framePos s = 0" "p + 7 \<le> n"
    by linarith
  then show ?thesis
  proof cases
    case known
    then show ?thesis
      using assms copy_accumulate_dispatch_resets [of n buf p s] by (simp add: iteration_known_size)
  next
    case rest
    then show ?thesis
      using assms by (simp add: iteration_def flow_state_def Let_def split: sum.splits if_splits prod.splits)
  next
    case start
    then show ?thesis
      using assms by (simp add: iteration_def flow_state_def Let_def split: sum.splits if_splits prod.splits)
  next
    case fresh
    show ?thesis
    proof (cases "read_frameSize buf p")
      case (Inl e)
      then show ?thesis using fresh assms by (simp add: iteration_def flow_state_def)
    next
      case (Inr sz)
      show ?thesis
      proof (cases "sz \<le> n - p")
        case True
        then show ?thesis
          using fresh Inr assms
          by (simp add: iteration_def flow_state_def Let_def parseFrames_def split: sum.splits)
      next
        case False
        then have it: "iteration n buf p s = copy_accumulate n buf p (s\<lparr>frameSize := sz\<rparr>)"
          using fresh Inr by (simp add: iteration_fresh_partial)
        show ?thesis
          using assms copy_accumulate_dispatch_resets [of n buf p "s\<lparr>frameSize := sz\<rparr>"]
          unfolding it by simp
      qed
    qed
  qed
qed

text \<open>
  Claim C6, as stated, fails. The chunk \<open>01 00 00\<close> leaves a partial header; the chunk
  \<open>FF FF FF F8\<close> completes it, the payload length is read as \<open>-8\<close> and the callback
  returns with \<^verbatim>\<open>frameSize = 0\<close> and \<^verbatim>\<open>framePos = 7\<close>.
\<close>

theorem negative_length_breaks_invariant:
  "feed [[1, 0, 0], [255, 255, 255, 248]] (replicate 131072 0) (connectSocket_state (replicate 16384 0))
     = Some (Returned \<lparr>framePos = 7, frameSize = 0,
          frameBuffer = [1, 0, 0, 255, 255, 255, 248] @ replicate 16377 0, dispatched = []\<rparr>) \<and>
   \<not> reasm_inv \<lparr>framePos = 7, frameSize = 0,
          frameBuffer = [1, 0, 0, 255, 255, 255, 248] @ replicate 16377 0, dispatched = []\<rparr>"
  by (simp add: callback_eval reasm_inv_def)

text \<open>
  Claim C6, amended: if the state satisfies the invariant when the callback is
  called, and the frame size the call decodes on completing a partly buffered
  header, if it does so, is not one of 0 to 6, then the state satisfies the invariant
  at every exit of the call, by return or by throw, where the invariant is the claim's
  (which asks nothing of a negative \<^verbatim>\<open>frameSize\<close>); and a pass of the loop that
  dispatches a frame, on either path, leaves \<^verbatim>\<open>framePos = 0\<close> and \<^verbatim>\<open>frameSize = 0\<close>.
\<close>

theorem reasm_inv_at_exit:
  assumes "reasm_inv s" "length (frameBuffer s) = frameBuffer_capacity"
    and "\<forall>v. completed_header_size bytesWritten buf s = Some v \<longrightarrow> v < 0 \<or> 7 \<le> v"
    and "onread_callback bytesWritten buf s = Some out"
  shows "reasm_inv (state_of out) \<and> length (frameBuffer (state_of out)) = frameBuffer_capacity \<and>
     (\<forall>p t. dispatched (flow_state (iteration bytesWritten buf p t)) \<noteq> dispatched t \<longrightarrow>
        framePos (flow_state (iteration bytesWritten buf p t)) = 0 \<and>
        frameSize (flow_state (iteration bytesWritten buf p t)) = 0)"
proof -
  have "loop_inv bytesWritten buf 0 s"
    using assms(1-3) by (simp add: loop_inv_def exit_ok_def)
  moreover have "onread_loop bytesWritten buf 0 s = Some out"
    using assms(4) by (simp add: onread_callback_def)
  ultimately have "exit_ok (state_of out)"
    using loop_inv_exit by blast
  then show ?thesis
    using dispatch_resets by (simp add: exit_ok_def)
qed

text \<open>Three header bytes are buffered and the chunk brings the other 13 bytes of the frame.\<close>

theorem reasm_inv_at_exit_witness:
  "completed_header_size 13 ([0, 0, 0, 8, 1, 2, 3, 4, 5, 6, 7, 8, 206] @ replicate 131059 0)
     \<lparr>framePos = 3, frameSize = 0, frameBuffer = [1, 0, 1] @ replicate 16381 0, dispatched = []\<rparr> = Some 16 \<and>
   onread_callback 13 ([0, 0, 0, 8, 1, 2, 3, 4, 5, 6, 7, 8, 206] @ replicate 131059 0)
     \<lparr>framePos = 3, frameSize = 0, frameBuffer = [1, 0, 1] @ replicate 16381 0, dispatched = []\<rparr>
   = Some (Returned \<lparr>framePos = 0, frameSize = 0,
        frameBuffer = [1, 0, 1, 0, 0, 0, 8, 1, 2, 3, 4, 5, 6, 7, 8, 206] @ replicate 16368 0,
        dispatched = [[1, 0, 1, 0, 0, 0, 8, 1, 2, 3, 4, 5, 6, 7, 8, 206]]\<rparr>) \<and>
   reasm_inv \<lparr>framePos = 0, frameSize = 0,
        frameBuffer = [1, 0, 1, 0, 0, 0, 8, 1, 2, 3, 4, 5, 6, 7, 8, 206] @ replicate 16368 0,
        dispatched = [[1, 0, 1, 0, 0, 0, 8, 1, 2, 3, 4, 5, 6, 7, 8, 206]]\<rparr>"
proof -
  let ?buf = "[0, 0, 0, 8, 1, 2, 3, 4, 5, 6, 7, 8, 206] @ replicate 131059 (0::byte)"
  let ?s = "\<lparr>framePos = 3, frameSize = 0, frameBuffer = [1, 0, 1] @ replicate 16381 0, dispatched = []\<rparr>"
  let ?s' = "\<lparr>framePos = 0, frameSize = 0,
        frameBuffer = [1, 0, 1, 0, 0, 0, 8, 1, 2, 3, 4, 5, 6, 7, 8, 206] @ replicate 16368 0,
        dispatched = [[1, 0, 1, 0, 0, 0, 8, 1, 2, 3, 4, 5, 6, 7, 8, 206]]\<rparr>"
  have h1: "reasm_inv ?s" by (simp add: reasm_inv_def)
  have h2: "length (frameBuffer ?s) = frameBuffer_capacity" by (simp add: frameBuffer_capacity_def)
  have sz: "completed_header_size 13 ?buf ?s = Some 16"
    by (simp add: completed_header_size_def callback_eval)
  then have h3: "\<forall>v. completed_header_size 13 ?buf ?s = Some v \<longrightarrow> v < 0 \<or> 7 \<le> v" by simp
  have h4: "onread_callback 13 ?buf ?s = Some (Returned ?s')"
    by (simp add: callback_eval)
  from reasm_inv_at_exit [OF h1 h2 h3 h4] sz h4 show ?thesis
    by (simp add: state_of_def)
qed

subsection \<open>Reassembly of a chunked frame stream\<close>

lemma take_drop_chunk:
  assumes "take (length c) buf = c" "k + m \<le> length c"
  shows "take m (drop k buf) = take m (drop k c)"
proof -
  have "take m (drop k c) = take m (drop k (take (length c) buf))"
    using assms by simp
  also have "\<dots> = take m (take (length c - k) (drop k buf))"
    by (simp add: drop_take)
  also have "\<dots> = take m (drop k buf)"
    using assms by (simp add: min_def)
  finally show ?thesis by simp
qed

lemma payload_length_take7:
  assumes "take 7 x = take 7 y" "7 \<le> length y"
  shows "payload_length x = payload_length y"
proof -
  have "\<And>i. i < 7 \<Longrightarrow> x ! i = y ! i"
  proof -
    fix i :: nat assume "i < 7"
    then have "x ! i = take 7 x ! i" "y ! i = take 7 y ! i" by simp_all
    with assms show "x ! i = y ! i" by simp
  qed
  then show ?thesis by (simp add: payload_length_def)
qed

lemma wire_frame_length: "wire_frame f \<Longrightarrow> 8 \<le> length f"
  using be32_bounds [of "f ! 3" "f ! 4" "f ! 5" "f ! 6"]
  by (simp add: wire_frame_def payload_length_def)

lemma read_frameSize_of_frame:
  assumes "wire_frame f" "length f \<le> 2147483647" "0 \<le> pos" "take 7 (drop (nat pos) b) = take 7 f"
  shows "read_frameSize b pos = Inr (int (length f))"
proof -
  have l7: "7 \<le> length f" using assms(1) by (simp add: wire_frame_def)
  then have "length (take 7 (drop (nat pos) b)) = 7" using assms(4) by simp
  then have len: "pos + 7 \<le> int (length b)" using assms(3) by (simp add: min_def split: if_splits)
  have pl: "payload_length (drop (nat pos) b) = payload_length f"
    using payload_length_take7 [OF assms(4) l7] .
  have "payload_length f = int (length f) - 8" using assms(1) by (simp add: wire_frame_def)
  then show ?thesis
    using read_frameSize_signed [OF assms(3) len] assms(2) pl by simp
qed

lemma tracks_pending:
  assumes "length (frameBuffer s) = 16384" "framePos s = int (length p)"
    "take (length p) (frameBuffer s) = p" "rest = f # rs" "p = take (length p) f"
    "length p < length f" "frameSize s = (if length p < 7 then 0 else int (length f))"
  shows "tracks s p rest"
proof -
  have "f = p @ drop (length p) f"
    using assms(5) by (metis append_take_drop_id)
  moreover have "drop (length p) f \<noteq> []"
    using assms(6) by simp
  ultimately have "\<exists>q rs'. q \<noteq> [] \<and> rest = (p @ q) # rs' \<and>
         frameSize s = (if length p < 7 then 0 else int (length (p @ q)))"
    using assms(4,7) by (intro exI [of _ "drop (length p) f"] exI [of _ rs]) auto
  then show ?thesis
    using assms(1-3) by (simp add: tracks_def frameBuffer_capacity_def)
qed

lemma tracks_idle:
  assumes "length (frameBuffer s) = 16384" "framePos s = 0" "frameSize s = 0" "\<forall>g\<in>set rs. g \<noteq> []"
  shows "tracks s [] rs"
proof (cases rs)
  case Nil
  then show ?thesis using assms by (simp add: tracks_def frameBuffer_capacity_def)
next
  case (Cons g gs)
  then have "g \<noteq> []" using assms(4) by simp
  then show ?thesis using assms Cons by (simp add: tracks_def frameBuffer_capacity_def)
qed

lemma iteration_tracks:
  assumes valid: "\<forall>f\<in>set (dispatched s @ rest). wire_frame f \<and> length f \<le> frameBuffer_capacity"
    and chunk: "take (length c) buf = c" "length c \<le> length buf"
    and k: "k < length c"
    and tr: "tracks s p rest"
    and st: "drop (length p) (concat rest) = drop k c @ R"
    and hdr: "p \<noteq> [] \<and> length p < 7 \<longrightarrow> k = 0 \<and> 7 \<le> length p + length c"
  shows "(\<exists>k' s' p' rest'. iteration (int (length c)) buf (int k) s = Continue (int k') s' \<and>
            k < k' \<and> k' \<le> length c \<and> tracks s' p' rest' \<and>
            dispatched s' @ rest' = dispatched s @ rest \<and>
            drop (length p') (concat rest') = drop k' c @ R \<and> (p' = [] \<or> 7 \<le> length p'))
       \<or> (\<exists>s' p' rest'. iteration (int (length c)) buf (int k) s = Break s' \<and>
            tracks s' p' rest' \<and> dispatched s' @ rest' = dispatched s @ rest \<and>
            drop (length p') (concat rest') = R)"
proof -
  define r where "r = drop k c"
  have r: "r \<noteq> []" "length r = length c - k" "0 < length r"
    using k by (simp_all add: r_def)
  have cap: "length (frameBuffer s) = 16384" and fp: "framePos s = int (length p)"
    and tk: "take (length p) (frameBuffer s) = p"
    using tr by (simp_all add: tracks_def frameBuffer_capacity_def)
  have "rest \<noteq> []"
    using st r k by (auto simp: r_def)
  then obtain q rs where q: "q \<noteq> []" and rest: "rest = (p @ q) # rs"
    and fsz: "frameSize s = (if length p < 7 then 0 else int (length (p @ q)))"
    using tr by (auto simp: tracks_def)
  define f where "f = p @ q"
  have wf: "wire_frame f" and lf: "length f \<le> 16384"
    using valid rest by (simp_all add: f_def frameBuffer_capacity_def)
  have f8: "8 \<le> length f" using wf by (rule wire_frame_length)
  have fne: "f \<noteq> []" using f8 by auto
  have ne: "\<forall>g\<in>set rs. g \<noteq> []"
  proof
    fix g assume "g \<in> set rs"
    then have "wire_frame g" using valid rest by simp
    then show "g \<noteq> []" using wire_frame_length [of g] by auto
  qed
  have stream: "q @ concat rs = r @ R"
    using st by (simp add: rest r_def)
  have bufr: "take m (drop k buf) = take m r" if "m \<le> length r" for m
    unfolding r_def using that r(2) k by (intro take_drop_chunk [OF chunk(1)]) simp
  have n: "int k < int (length c)" "int (length c) \<le> int (length buf)" "int (length c) - int k = int (length r)"
    using k chunk r by simp_all
  consider (idle_short) "p = []" "length r < 7"
    | (idle_whole) "p = []" "7 \<le> length r" "length f \<le> length r"
    | (idle_part) "p = []" "7 \<le> length r" "length r < length f"
    | (hdr_rest) "p \<noteq> []" "length p < 7"
    | (body_done) "7 \<le> length p" "length q \<le> length r"
    | (body_more) "7 \<le> length p" "length r < length q"
    by (cases "p = []"; cases "length p < 7"; cases "7 \<le> length r"; cases "length f \<le> length r"; cases "length q \<le> length r") auto
  then show ?thesis
  proof cases
    case idle_short
    have rq: "r = take (length r) q"
      using stream idle_short f8 by (simp add: append_eq_append_conv_if f_def split: if_splits)
    have R: "drop (length r) (concat rest) = R"
      using stream idle_short by (simp add: rest)
    define s' where "s' = s\<lparr>framePos := int (length r), frameBuffer := r @ drop (length r) (frameBuffer s)\<rparr>"
    have "iteration (int (length c)) buf (int k) s = Break s'"
      using iteration_header_start [of s "int k" "int (length c)" buf] fsz fp idle_short n cap bufr [of "length r"]
      by (simp add: s'_def)
    moreover have "tracks s' r rest"
    proof (rule tracks_pending [where f = f and rs = rs])
      show "length (frameBuffer s') = 16384" using cap idle_short by (simp add: s'_def)
      show "framePos s' = int (length r)" by (simp add: s'_def)
      show "take (length r) (frameBuffer s') = r" by (simp add: s'_def)
      show "rest = f # rs" by (simp add: rest f_def)
      show "r = take (length r) f" using rq idle_short by (simp add: f_def)
      show "length r < length f" using idle_short f8 by simp
      show "frameSize s' = (if length r < 7 then 0 else int (length f))"
        using idle_short fsz by (simp add: s'_def)
    qed
    moreover have "dispatched s' = dispatched s" by (simp add: s'_def)
    ultimately show ?thesis using R by blast
  next
    case idle_whole
    have fr: "f = take (length f) r" and rs: "concat rs = drop (length f) r @ R"
      using stream idle_whole by (simp_all add: append_eq_append_conv_if f_def split: if_splits)
    have t7: "take 7 (drop k buf) = take 7 f"
    proof -
      have "take 7 (drop k buf) = take 7 r" using bufr [of 7] idle_whole by simp
      also have "\<dots> = take 7 (take (length f) r)" using f8 by (simp add: min_def)
      finally show ?thesis using fr by simp
    qed
    have rd: "read_frameSize buf (int k) = Inr (int (length f))"
      using read_frameSize_of_frame [OF wf _ _ , of "int k" buf] t7 lf by simp
    define s' where "s' = s\<lparr>dispatched := dispatched s @ [f]\<rparr>"
    have "take (length f) (drop k buf) = f"
      using bufr [of "length f"] idle_whole fr by simp
    then have "iteration (int (length c)) buf (int k) s = Continue (int (k + length f)) s'"
      using iteration_fast [of s "int k" "int (length c)" buf "int (length f)"] fsz fp idle_whole n rd
      by (simp add: s'_def)
    moreover have "tracks s' [] rs"
      using cap fp fsz idle_whole ne by (intro tracks_idle) (simp_all add: s'_def)
    moreover have "dispatched s' @ rs = dispatched s @ rest"
      using idle_whole by (simp add: s'_def rest f_def)
    moreover have "drop (length ([]::byte list)) (concat rs) = drop (k + length f) c @ R"
      using rs by (simp add: r_def add.commute)
    moreover have "k < k + length f" "k + length f \<le> length c"
      using f8 idle_whole r by auto
    ultimately show ?thesis by blast
  next
    case idle_part
    have rq: "r = take (length r) f" and R: "R = drop (length r) f @ concat rs"
      using stream idle_part by (simp_all add: append_eq_append_conv_if f_def split: if_splits)
    have t7: "take 7 (drop k buf) = take 7 f"
    proof -
      have "take 7 (drop k buf) = take 7 r" using bufr [of 7] idle_part by simp
      also have "\<dots> = take 7 (take (length r) f)" using rq by simp
      also have "\<dots> = take 7 f" using idle_part by (simp add: min_def)
      finally show ?thesis .
    qed
    have rd: "read_frameSize buf (int k) = Inr (int (length f))"
      using read_frameSize_of_frame [OF wf _ _ , of "int k" buf] t7 lf by simp
    define s1 where "s1 = s\<lparr>frameSize := int (length f)\<rparr>"
    have it: "iteration (int (length c)) buf (int k) s = copy_accumulate (int (length c)) buf (int k) s1"
      using iteration_fresh_partial [of s "int k" "int (length c)" buf "int (length f)"] fsz fp idle_part n rd
      by (simp add: s1_def)
    define s' where "s' = s1\<lparr>framePos := int (length r), frameBuffer := r @ drop (length r) (frameBuffer s)\<rparr>"
    have mn: "min (frameSize s1 - framePos s1) (int (length c) - int k) = int (length r)"
      using idle_part fp n by (simp add: s1_def)
    have "copy_accumulate (int (length c)) buf (int k) s1 = Continue (int k + int (length r)) s'"
      using copy_accumulate_in_range [of s1 "int k" "int (length c)" buf] cap n fp idle_part lf bufr [of "length r"] fne
      unfolding mn by (simp add: s1_def s'_def)
    then have "iteration (int (length c)) buf (int k) s = Continue (int (length c)) s'"
      using it r k by simp
    moreover have "tracks s' r rest"
    proof (rule tracks_pending [where f = f and rs = rs])
      show "length (frameBuffer s') = 16384" using cap idle_part lf by (simp add: s'_def s1_def)
      show "framePos s' = int (length r)" by (simp add: s'_def)
      show "take (length r) (frameBuffer s') = r" by (simp add: s'_def)
      show "rest = f # rs" by (simp add: rest f_def)
      show "r = take (length r) f" by (rule rq)
      show "length r < length f" using idle_part by simp
      show "frameSize s' = (if length r < 7 then 0 else int (length f))"
        using idle_part by (simp add: s'_def s1_def)
    qed
    moreover have "dispatched s' = dispatched s" by (simp add: s'_def s1_def)
    moreover have "drop (length r) (concat rest) = drop (length c) c @ R"
      using R idle_part by (simp add: rest f_def)
    ultimately show ?thesis using k idle_part by blast
  next
    case hdr_rest
    then have k0: "k = 0" and l7: "7 \<le> length p + length c" using hdr by simp_all
    have rc: "r = c" using k0 by (simp add: r_def)
    define m where "m = 7 - length p"
    have m: "0 < m" "m \<le> length c" "length p + m = 7" "m \<le> length q"
      using hdr_rest l7 f8 by (simp_all add: m_def f_def)
    have tm: "take m c = take m q" and dR: "drop m q @ concat rs = drop m c @ R"
    proof -
      from stream rc have e: "q @ concat rs = c @ R" by simp
      then have "take m (q @ concat rs) = take m (c @ R)" "drop m (q @ concat rs) = drop m (c @ R)" by simp_all
      then show "take m c = take m q" "drop m q @ concat rs = drop m c @ R" using m by simp_all
    qed
    define fb where "fb = p @ take m c @ drop 7 (frameBuffer s)"
    have t7: "take 7 (drop (nat 0) fb) = take 7 f"
      using m tm by (simp add: fb_def f_def)
    have rd: "read_frameSize fb 0 = Inr (int (length f))"
      using read_frameSize_of_frame [OF wf _ _ t7] lf by simp
    define s' where "s' = s\<lparr>framePos := 7, frameSize := int (length f), frameBuffer := fb\<rparr>"
    have "take (nat (7 - int (length p))) buf = take m c"
      using bufr [of m] m rc k0 by (simp add: m_def nat_diff_distrib')
    then have "iteration (int (length c)) buf (int k) s = Continue (int m) s'"
      using iteration_header_rest [of s "int k" buf "int (length f)" "int (length c)"] fsz fp hdr_rest k0 cap tk rd m chunk
      by (simp add: s'_def fb_def m_def of_nat_diff)
    moreover have "tracks s' (take 7 f) rest"
    proof (rule tracks_pending [where f = f and rs = rs])
      have l7: "length (take 7 f) = 7" using f8 by simp
      show "length (frameBuffer s') = 16384" using m cap hdr_rest by (simp add: s'_def fb_def)
      show "framePos s' = int (length (take 7 f))" unfolding l7 by (simp add: s'_def)
      show "take (length (take 7 f)) (frameBuffer s') = take 7 f"
        unfolding l7 using t7 by (simp add: s'_def)
      show "rest = f # rs" by (simp add: rest f_def)
      show "take 7 f = take (length (take 7 f)) f" unfolding l7 ..
      show "length (take 7 f) < length f" unfolding l7 using f8 by simp
      show "frameSize s' = (if length (take 7 f) < 7 then 0 else int (length f))"
        unfolding l7 by (simp add: s'_def)
    qed
    moreover have "dispatched s' = dispatched s" by (simp add: s'_def)
    moreover have "drop (length (take 7 f)) (concat rest) = drop m c @ R"
    proof -
      have "length (take 7 f) = 7" using f8 by simp
      moreover have "drop 7 p = []" "7 - length p = m" "7 - (length p + length q) = 0"
        using m hdr_rest f8 by (simp_all add: m_def f_def)
      then have "drop 7 (concat rest) = drop m q @ concat rs" by (simp add: rest)
      ultimately show ?thesis using dR by simp
    qed
    moreover have "7 \<le> length (take 7 f)" using f8 by simp
    ultimately show ?thesis using m k0 by blast
  next
    case body_done
    have qr: "q = take (length q) r" and rs: "concat rs = drop (length q) r @ R"
      using stream body_done by (simp_all add: append_eq_append_conv_if split: if_splits)
    have fz: "frameSize s = int (length f)" using fsz body_done by (simp add: f_def)
    define fb where "fb = p @ q @ drop (length f) (frameBuffer s)"
    define s' where "s' = s\<lparr>framePos := 0, frameSize := 0, frameBuffer := fb, dispatched := dispatched s @ [f]\<rparr>"
    have mn: "min (frameSize s - framePos s) (int (length c) - int k) = int (length q)"
      using body_done fp fz n by (simp add: f_def)
    have "take (length q) (drop k buf) = q" using bufr [of "length q"] body_done qr by simp
    then have "copy_accumulate (int (length c)) buf (int k) s = Continue (int k + int (length q)) s'"
      using copy_accumulate_in_range [of s "int k" "int (length c)" buf] cap n fp fz lf q tk fne
      unfolding mn by (simp add: s'_def fb_def f_def nat_int_add)
    then have "iteration (int (length c)) buf (int k) s = Continue (int (k + length q)) s'"
      using fz fne by (simp add: iteration_known_size)
    moreover have "tracks s' [] rs"
    proof -
      have "length fb = 16384" using cap lf by (simp add: fb_def f_def)
      then show ?thesis using ne by (intro tracks_idle) (simp_all add: s'_def)
    qed
    moreover have "dispatched s' @ rs = dispatched s @ rest"
      by (simp add: s'_def rest f_def)
    moreover have "drop (length ([]::byte list)) (concat rs) = drop (k + length q) c @ R"
      using rs by (simp add: r_def add.commute)
    moreover have "k < k + length q" "k + length q \<le> length c"
      using q body_done r by simp_all
    ultimately show ?thesis by blast
  next
    case body_more
    have rq: "r = take (length r) q" and R: "R = drop (length r) q @ concat rs"
      using stream body_more by (simp_all add: append_eq_append_conv_if split: if_splits)
    have fz: "frameSize s = int (length f)" using fsz body_more by (simp add: f_def)
    define fb where "fb = p @ r @ drop (length p + length r) (frameBuffer s)"
    define s' where "s' = s\<lparr>framePos := int (length p + length r), frameBuffer := fb\<rparr>"
    have mn: "min (frameSize s - framePos s) (int (length c) - int k) = int (length r)"
      using body_more fp fz n by (simp add: f_def)
    have "copy_accumulate (int (length c)) buf (int k) s = Continue (int k + int (length r)) s'"
      using copy_accumulate_in_range [of s "int k" "int (length c)" buf] cap n fp fz lf q tk body_more bufr [of "length r"] fne
      unfolding mn by (simp add: s'_def fb_def f_def nat_add_distrib)
    then have "iteration (int (length c)) buf (int k) s = Continue (int (length c)) s'"
      using fz fne r k by (simp add: iteration_known_size)
    moreover have "tracks s' (p @ r) rest"
    proof -
      have "length fb = 16384" using cap lf body_more by (simp add: fb_def f_def)
      moreover have "p @ r = take (length (p @ r)) f"
        using rq by (simp add: f_def)
      moreover have "take (length (p @ r)) fb = p @ r" by (simp add: fb_def)
      moreover have "length (p @ r) < length f" using body_more by (simp add: f_def)
      moreover have "rest = f # rs" by (simp add: rest f_def)
      moreover have "framePos s' = int (length (p @ r))" by (simp add: s'_def)
      moreover have "frameSize s' = (if length (p @ r) < 7 then 0 else int (length f))"
        using body_more fz by (simp add: s'_def)
      moreover have "frameBuffer s' = fb" by (simp add: s'_def)
      ultimately show ?thesis
        by (intro tracks_pending [where f = f and rs = rs]) simp_all
    qed
    moreover have "dispatched s' = dispatched s" by (simp add: s'_def)
    moreover have "drop (length (p @ r)) (concat rest) = drop (length c) c @ R"
      using R body_more by (simp add: rest)
    moreover have "7 \<le> length (p @ r)" using body_more by simp
    ultimately show ?thesis using k by blast
  qed
qed

lemma loop_tracks:
  assumes chunk: "take (length c) buf = c" "length c \<le> length buf"
  shows "k \<le> length c \<Longrightarrow> tracks s p rest \<Longrightarrow>
      \<forall>f\<in>set (dispatched s @ rest). wire_frame f \<and> length f \<le> frameBuffer_capacity \<Longrightarrow>
      drop (length p) (concat rest) = drop k c @ R \<Longrightarrow>
      (p \<noteq> [] \<and> length p < 7 \<and> k < length c \<longrightarrow> k = 0 \<and> 7 \<le> length p + length c) \<Longrightarrow>
      \<exists>s' p' rest'. onread_loop (int (length c)) buf (int k) s = Some (Returned s') \<and>
         tracks s' p' rest' \<and> dispatched s' @ rest' = dispatched s @ rest \<and>
         drop (length p') (concat rest') = R"
proof (induction "length c - k" arbitrary: k s p rest rule: less_induct)
  case less
  show ?case
  proof (cases "k < length c")
    case False
    then have "k = length c" using less.prems(1) by simp
    then have "onread_loop (int (length c)) buf (int k) s = Some (Returned s)"
      by (subst onread_loop.simps) simp
    moreover have "drop (length p) (concat rest) = R"
      using less.prems(4) \<open>k = length c\<close> by simp
    ultimately show ?thesis using less.prems(2) by blast
  next
    case True
    have hdr: "p \<noteq> [] \<and> length p < 7 \<longrightarrow> k = 0 \<and> 7 \<le> length p + length c"
      using less.prems(5) True by simp
    from iteration_tracks [OF less.prems(3) chunk True less.prems(2) less.prems(4) hdr]
    consider (cont) k' s' p' rest' where
        "iteration (int (length c)) buf (int k) s = Continue (int k') s'"
        "k < k'" "k' \<le> length c" "tracks s' p' rest'"
        "dispatched s' @ rest' = dispatched s @ rest"
        "drop (length p') (concat rest') = drop k' c @ R" "p' = [] \<or> 7 \<le> length p'"
      | (brk) s' p' rest' where
        "iteration (int (length c)) buf (int k) s = Break s'"
        "tracks s' p' rest'" "dispatched s' @ rest' = dispatched s @ rest"
        "drop (length p') (concat rest') = R"
      by blast
    then show ?thesis
    proof cases
      case cont
      have step: "onread_loop (int (length c)) buf (int k) s = onread_loop (int (length c)) buf (int k') s'"
        using True cont(1) by (subst onread_loop.simps) simp
      have "length c - k' < length c - k" using cont(2,3) True by simp
      moreover have "\<forall>f\<in>set (dispatched s' @ rest'). wire_frame f \<and> length f \<le> frameBuffer_capacity"
        using less.prems(3) cont(5) by simp
      moreover have "p' \<noteq> [] \<and> length p' < 7 \<and> k' < length c \<longrightarrow> k' = 0 \<and> 7 \<le> length p' + length c"
        using cont(7) by auto
      ultimately obtain s'' p'' rest'' where
        "onread_loop (int (length c)) buf (int k') s' = Some (Returned s'')"
        "tracks s'' p'' rest''" "dispatched s'' @ rest'' = dispatched s' @ rest'"
        "drop (length p'') (concat rest'') = R"
        using less.hyps [of k' s' p' rest'] cont(3,4,6) by blast
      then show ?thesis using step cont(5) by (metis)
    next
      case brk
      have "onread_loop (int (length c)) buf (int k) s = Some (Returned s')"
        using True brk(1) by (subst onread_loop.simps) simp
      then show ?thesis using brk by blast
    qed
  qed
qed

lemma offsets_append:
  "offsets b (xs @ ys) = offsets b xs @ offsets (b + length (concat xs)) ys"
  by (induction xs arbitrary: b) (simp_all add: add.assoc)

lemma offsets_mem:
  "fs = done @ f # rs \<Longrightarrow> length (concat done) \<in> set (offsets 0 fs)"
  by (simp add: offsets_append)

lemma deliver_chunk:
  "length c \<le> length rb \<Longrightarrow> take (length c) (deliver c rb) = c \<and> length (deliver c rb) = length rb"
  by (simp add: deliver_def)

lemma tracks_rest: "tracks s p rest \<Longrightarrow> p \<noteq> [] \<Longrightarrow> \<exists>q rs. rest = (p @ q) # rs"
  by (auto simp: tracks_def)

lemma tracks_end:
  assumes "tracks s p rest" "drop (length p) (concat rest) = []" "\<forall>f\<in>set rest. f \<noteq> []"
  shows "p = [] \<and> rest = [] \<and> framePos s = 0 \<and> frameSize s = 0"
proof -
  have "\<not> (\<exists>q rs. q \<noteq> [] \<and> rest = (p @ q) # rs)"
    using assms(2) by auto
  then show ?thesis using assms(1) by (auto simp: tracks_def)
qed

lemma feed_tracks:
  assumes valid: "\<forall>f\<in>set fs. wire_frame f \<and> length f \<le> frameBuffer_capacity"
  shows "tracks s p rest \<Longrightarrow> fs = dispatched s @ rest \<Longrightarrow>
     drop (length p) (concat rest) = concat cs \<Longrightarrow>
     b + length (concat cs) = length (concat fs) \<Longrightarrow>
     \<forall>c\<in>set cs. length c \<le> length rb \<Longrightarrow>
     (\<forall>(b', c) \<in> set (zip (offsets b cs) cs). \<forall>h \<in> set (offsets 0 fs).
        c \<noteq> [] \<and> h < b' \<and> b' < h + 7 \<longrightarrow> h + 7 \<le> b' + length c) \<Longrightarrow>
     \<exists>s'. feed cs rb s = Some (Returned s') \<and> dispatched s' = fs \<and> framePos s' = 0 \<and> frameSize s' = 0
          \<and> length (frameBuffer s') = frameBuffer_capacity"
proof (induction cs arbitrary: s p rest b rb)
  case Nil
  have "\<forall>f\<in>set rest. f \<noteq> []"
  proof
    fix f assume "f \<in> set rest"
    then have "wire_frame f" using valid Nil.prems(2) by simp
    then show "f \<noteq> []" using wire_frame_length [of f] by auto
  qed
  with tracks_end [OF Nil.prems(1)] Nil.prems(3)
  have "p = [] \<and> rest = [] \<and> framePos s = 0 \<and> frameSize s = 0" by simp
  then show ?case using Nil.prems(1,2) by (simp add: tracks_def)
next
  case (Cons c cs)
  define buf where "buf = deliver c rb"
  have lc: "length c \<le> length rb" using Cons.prems(5) by simp
  have chunk: "take (length c) buf = c" "length c \<le> length buf" and lbuf: "length buf = length rb"
    using deliver_chunk [OF lc] lc by (simp_all add: buf_def)
  have v: "\<forall>f\<in>set (dispatched s @ rest). wire_frame f \<and> length f \<le> frameBuffer_capacity"
    using valid Cons.prems(2) by simp
  have st: "drop (length p) (concat rest) = drop 0 c @ concat cs"
    using Cons.prems(3) by simp
  have hdr: "p \<noteq> [] \<and> length p < 7 \<and> 0 < length c \<longrightarrow> (0::nat) = 0 \<and> 7 \<le> length p + length c"
  proof (intro impI conjI)
    assume a: "p \<noteq> [] \<and> length p < 7 \<and> 0 < length c"
    then obtain q rs where rest: "rest = (p @ q) # rs"
      using tracks_rest [OF Cons.prems(1)] by blast
    define h where "h = length (concat (dispatched s))"
    have hm: "h \<in> set (offsets 0 fs)"
      unfolding h_def using offsets_mem [of fs "dispatched s" "p @ q" rs] Cons.prems(2) rest by simp
    have "length (concat fs) = h + length (concat rest)"
      using Cons.prems(2) by (simp add: h_def)
    moreover have "length (concat rest) = length p + length (concat (c # cs))"
    proof -
      have "length (drop (length p) (concat rest)) = length (concat (c # cs))"
        using Cons.prems(3) by simp
      moreover have "length p \<le> length (concat rest)" by (simp add: rest)
      ultimately show ?thesis by simp
    qed
    ultimately have b: "b = h + length p" using Cons.prems(4) by simp
    have "(b, c) \<in> set (zip (offsets b (c # cs)) (c # cs))" by simp
    with Cons.prems(6) hm have "c \<noteq> [] \<and> h < b \<and> b < h + 7 \<longrightarrow> h + 7 \<le> b + length c"
      by blast
    then show "7 \<le> length p + length c" using a b by auto
  qed simp
  from loop_tracks [OF chunk _ Cons.prems(1) v st hdr]
  obtain s' p' rest' where loop: "onread_loop (int (length c)) buf 0 s = Some (Returned s')"
    and tr: "tracks s' p' rest'" and d: "dispatched s' @ rest' = dispatched s @ rest"
    and R: "drop (length p') (concat rest') = concat cs"
    by auto
  have "\<exists>s''. feed cs buf s' = Some (Returned s'') \<and> dispatched s'' = fs \<and> framePos s'' = 0 \<and> frameSize s'' = 0
      \<and> length (frameBuffer s'') = frameBuffer_capacity"
  proof (rule Cons.IH [OF tr _ R, of "b + length c"])
    show "fs = dispatched s' @ rest'" using d Cons.prems(2) by simp
    show "b + length c + length (concat cs) = length (concat fs)" using Cons.prems(4) by simp
    show "\<forall>c\<in>set cs. length c \<le> length buf" using Cons.prems(5) lbuf by simp
    show "\<forall>(b', c) \<in> set (zip (offsets (b + length c) cs) cs). \<forall>h \<in> set (offsets 0 fs).
        c \<noteq> [] \<and> h < b' \<and> b' < h + 7 \<longrightarrow> h + 7 \<le> b' + length c"
      using Cons.prems(6) by simp
  qed
  then show ?case
    using loop by (simp add: onread_callback_def buf_def)
qed

lemma feed_valid_stream:
  assumes "\<forall>f\<in>set frames. wire_frame f \<and> length f \<le> frameBuffer_capacity"
    and "concat chunks = concat frames"
    and "\<forall>c\<in>set chunks. length c \<le> read_buffer_capacity"
    and "completes_headers frames chunks"
    and "length buffer = read_buffer_capacity" and "length fb = frameBuffer_capacity"
  shows "\<exists>s'. feed chunks buffer (connectSocket_state fb) = Some (Returned s') \<and>
           dispatched s' = frames \<and> framePos s' = 0 \<and> frameSize s' = 0 \<and>
           length (frameBuffer s') = frameBuffer_capacity"
proof (rule feed_tracks [OF assms(1), where p = "[]" and rest = frames and b = 0])
  show "tracks (connectSocket_state fb) [] frames"
  proof (rule tracks_idle)
    show "\<forall>g\<in>set frames. g \<noteq> []"
      using assms(1) wire_frame_length by fastforce
  qed (simp_all add: connectSocket_state_def assms(6) [unfolded frameBuffer_capacity_def])
  show "frames = dispatched (connectSocket_state fb) @ frames"
    by (simp add: connectSocket_state_def)
  show "drop (length ([]::byte list)) (concat frames) = concat chunks"
    using assms(2) by simp
  show "0 + length (concat chunks) = length (concat frames)"
    using assms(2) by simp
  show "\<forall>c\<in>set chunks. length c \<le> length buffer"
    using assms(3,5) by simp
  show "\<forall>(b', c)\<in>set (zip (offsets 0 chunks) chunks). \<forall>h\<in>set (offsets 0 frames).
       c \<noteq> [] \<and> h < b' \<and> b' < h + 7 \<longrightarrow> h + 7 \<le> b' + length c"
    using assms(4) by (simp add: completes_headers_def)
qed

lemma split_completes_headers:
  assumes "8 \<le> length f"
  shows "completes_headers [f] [take k f, drop k f]"
  using assms by (auto simp: completes_headers_def)

text \<open>
  A frame read in one chunk is dispatched from the chunk; read in two, wherever the
  cut, it is assembled in \<^verbatim>\<open>frameBuffer\<close>. The sink is given the same bytes.
\<close>

corollary fast_and_slow_path_agree:
  assumes "wire_frame f" "length f \<le> frameBuffer_capacity"
    and "length buffer = read_buffer_capacity" "length fb = frameBuffer_capacity"
  shows "\<exists>s1 s2. feed [f] buffer (connectSocket_state fb) = Some (Returned s1) \<and>
           feed [take k f, drop k f] buffer (connectSocket_state fb) = Some (Returned s2) \<and>
           dispatched s1 = [f] \<and> dispatched s2 = [f]"
proof -
  have small: "length f \<le> read_buffer_capacity"
    using assms(2) by (simp add: frameBuffer_capacity_def read_buffer_capacity_def)
  have v: "\<forall>g\<in>set [f]. wire_frame g \<and> length g \<le> frameBuffer_capacity"
    using assms(1,2) by simp
  have whole: "completes_headers [f] [f]"
    by (simp add: completes_headers_def)
  have c1: "concat [f] = concat [f]" "\<forall>c\<in>set [f]. length c \<le> read_buffer_capacity"
    using small by simp_all
  have c2: "concat [take k f, drop k f] = concat [f]"
    "\<forall>c\<in>set [take k f, drop k f]. length c \<le> read_buffer_capacity"
    using small by auto
  have halves: "completes_headers [f] [take k f, drop k f]"
    using wire_frame_length [OF assms(1)] by (rule split_completes_headers)
  from feed_valid_stream [OF v c1 whole assms(3,4)] feed_valid_stream [OF v c2 halves assms(3,4)]
  show ?thesis by blast
qed

text \<open>
  Claim C1, as stated, fails. A frame of 16392 bytes (payload length 16384) read as
  its 7-byte header and then the other 16385 bytes is copied into the 16384 bytes of
  \<^verbatim>\<open>frameBuffer\<close> until that is full; the next copy moves nothing and the callback
  throws. No frame is dispatched.
\<close>

theorem oversized_frame_is_not_reassembled:
  "wire_frame ([1, 0, 0, 0, 0, 64, 0] @ replicate 16384 0 @ [206]) \<and>
   feed [[1, 0, 0, 0, 0, 64, 0], replicate 16384 0 @ [206]]
        (replicate 131072 0) (connectSocket_state (replicate 16384 0))
     = Some (Thrown (CopiedZeroFrame 16392 16384 16377 8 16385)
         \<lparr>framePos = 16384, frameSize = 16392,
           frameBuffer = [1, 0, 0, 0, 0, 64, 0] @ replicate 16377 0, dispatched = []\<rparr>)"
  by (simp add: callback_eval wire_frame_def payload_length_def)

text \<open>
  Claim C1, amended: for every stream of N frames of the wire form, each of at most
  16384 bytes (the capacity of \<^verbatim>\<open>frameBuffer\<close>), split into chunks of at most 131072
  bytes (the read buffer) at any boundaries, inside a header, inside a payload or
  between frames, such that a chunk that starts inside a 7-byte header holds the rest
  of that header, reading the chunks one at a time dispatches exactly the N frames,
  byte for byte and in order, and ends with \<^verbatim>\<open>framePos = 0\<close> and \<^verbatim>\<open>frameSize = 0\<close>. The
  frames dispatched do not depend on the chunking, so a frame dispatched from the
  chunk and the same frame assembled in \<^verbatim>\<open>frameBuffer\<close> are the same bytes.
\<close>

theorem reassembly_of_chunked_frames:
  assumes "\<forall>f\<in>set frames. wire_frame f \<and> length f \<le> frameBuffer_capacity"
    and "concat chunks = concat frames"
    and "\<forall>c\<in>set chunks. length c \<le> read_buffer_capacity"
    and "completes_headers frames chunks"
    and "length buffer = read_buffer_capacity" and "length fb = frameBuffer_capacity"
  shows "\<exists>s'. feed chunks buffer (connectSocket_state fb) = Some (Returned s') \<and>
           dispatched s' = frames \<and> framePos s' = 0 \<and> frameSize s' = 0"
  using feed_valid_stream [OF assms] by blast

text \<open>Frames of 16 and 20 bytes, split inside the first header and inside the second payload.\<close>

theorem reassembly_of_chunked_frames_witness:
  "wire_frame [1, 0, 1, 0, 0, 0, 8, 1, 2, 3, 4, 5, 6, 7, 8, 206] \<and>
   wire_frame [3, 0, 2, 0, 0, 0, 12, 9, 9, 9, 9, 9, 9, 9, 9, 9, 9, 9, 9, 206] \<and>
   completes_headers
     [[1, 0, 1, 0, 0, 0, 8, 1, 2, 3, 4, 5, 6, 7, 8, 206],
      [3, 0, 2, 0, 0, 0, 12, 9, 9, 9, 9, 9, 9, 9, 9, 9, 9, 9, 9, 206]]
     [[1, 0, 1], [0, 0, 0, 8, 1, 2, 3, 4, 5, 6, 7, 8, 206, 3, 0, 2, 0, 0, 0, 12, 9, 9, 9],
      [9, 9, 9, 9, 9, 9, 9, 9, 9, 206]] \<and>
   (\<exists>s'. feed [[1, 0, 1], [0, 0, 0, 8, 1, 2, 3, 4, 5, 6, 7, 8, 206, 3, 0, 2, 0, 0, 0, 12, 9, 9, 9],
               [9, 9, 9, 9, 9, 9, 9, 9, 9, 206]]
             (replicate 131072 0) (connectSocket_state (replicate 16384 0)) = Some (Returned s') \<and>
         dispatched s' = [[1, 0, 1, 0, 0, 0, 8, 1, 2, 3, 4, 5, 6, 7, 8, 206],
                          [3, 0, 2, 0, 0, 0, 12, 9, 9, 9, 9, 9, 9, 9, 9, 9, 9, 9, 9, 206]] \<and>
         framePos s' = 0 \<and> frameSize s' = 0)"
proof -
  let ?a = "[1, 0, 1, 0, 0, 0, 8, 1, 2, 3, 4, 5, 6, 7, 8, 206] :: byte list"
  let ?b = "[3, 0, 2, 0, 0, 0, 12, 9, 9, 9, 9, 9, 9, 9, 9, 9, 9, 9, 9, 206] :: byte list"
  let ?cs = "[[1, 0, 1], [0, 0, 0, 8, 1, 2, 3, 4, 5, 6, 7, 8, 206, 3, 0, 2, 0, 0, 0, 12, 9, 9, 9],
      [9, 9, 9, 9, 9, 9, 9, 9, 9, 206]] :: byte list list"
  have wa: "wire_frame ?a" and wb: "wire_frame ?b"
    by (simp_all add: wire_frame_def payload_length_def be32_def)
  have h1: "\<forall>f\<in>set [?a, ?b]. wire_frame f \<and> length f \<le> frameBuffer_capacity"
    using wa wb by (simp add: frameBuffer_capacity_def)
  have h2: "concat ?cs = concat [?a, ?b]" by simp
  have h3: "\<forall>c\<in>set ?cs. length c \<le> read_buffer_capacity"
    by (simp add: read_buffer_capacity_def)
  have h4: "completes_headers [?a, ?b] ?cs"
    by (simp add: completes_headers_def)
  have h5: "length (replicate 131072 (0::byte)) = read_buffer_capacity"
    by (simp add: read_buffer_capacity_def)
  have h6: "length (replicate 16384 (0::byte)) = frameBuffer_capacity"
    by (simp add: frameBuffer_capacity_def)
  from reassembly_of_chunked_frames [OF h1 h2 h3 h4 h5 h6] wa wb h4 show ?thesis
    by simp
qed

subsection \<open>Reaching the guards\<close>

lemma copy_accumulate_guard:
  assumes "copied_zero (buf_copy buf (frameBuffer s) (framePos s) p (p + min (frameSize s - framePos s) (n - p)))"
  shows "copy_accumulate n buf p s =
     Throw (CopiedZeroFrame (frameSize s) (framePos s) p (min (frameSize s - framePos s) (n - p)) n) s"
  using assms by (auto simp: copy_accumulate_def copied_zero_def Let_def split: sum.splits)

lemma guard_reached_iteration:
  assumes "guard_reached n buf p s"
  shows "\<exists>e s'. iteration n buf p s = Throw e s' \<and> is_copied_zero e \<and> dispatched s' = dispatched s"
proof -
  consider (known) "frameSize s \<noteq> 0"
    | (rest) "frameSize s = 0" "framePos s \<noteq> 0"
    | (start) "frameSize s = 0" "framePos s = 0" "n < p + 7"
    | (fresh) "frameSize s = 0" "framePos s = 0" "p + 7 \<le> n"
    by linarith
  then show ?thesis
  proof cases
    case known
    then have "copy_accumulate n buf p s =
        Throw (CopiedZeroFrame (frameSize s) (framePos s) p (min (frameSize s - framePos s) (n - p)) n) s"
      using assms by (intro copy_accumulate_guard) (simp add: guard_reached_def)
    then show ?thesis using known by (simp add: iteration_def)
  next
    case rest
    then show ?thesis
      using assms by (auto simp: guard_reached_def iteration_def copied_zero_def split: sum.splits)
  next
    case start
    then show ?thesis
      using assms by (auto simp: guard_reached_def iteration_def copied_zero_def split: sum.splits)
  next
    case fresh
    then obtain sz where sz: "read_frameSize buf p = Inr sz" "n - p < sz"
      and z: "copied_zero (buf_copy buf (frameBuffer s) (framePos s) p (p + min (sz - framePos s) (n - p)))"
      using assms by (auto simp: guard_reached_def split: sum.splits)
    have "copy_accumulate n buf p (s\<lparr>frameSize := sz\<rparr>) =
        Throw (CopiedZeroFrame sz (framePos s) p (min (sz - framePos s) (n - p)) n) (s\<lparr>frameSize := sz\<rparr>)"
      using copy_accumulate_guard [of buf "s\<lparr>frameSize := sz\<rparr>" p n] z by simp
    then show ?thesis using fresh sz by (simp add: iteration_def)
  qed
qed

lemma guard_reached_throws:
  assumes "p < n" "guard_reached n buf p s"
  shows "\<exists>e s'. onread_loop n buf p s = Some (Thrown e s') \<and> is_copied_zero e \<and> dispatched s' = dispatched s"
proof -
  from guard_reached_iteration [OF assms(2)] obtain e s' where
    it: "iteration n buf p s = Throw e s'" and z: "is_copied_zero e" "dispatched s' = dispatched s"
    by blast
  have "onread_loop n buf p s = Some (Thrown e s')"
    using assms(1) it by (subst onread_loop.simps) simp
  then show ?thesis using z by blast
qed

text \<open>
  Claim C7, as stated, fails. A frame of 16385 bytes read as its first 16384 bytes
  and then its last byte fills \<^verbatim>\<open>frameBuffer\<close>; the copy of the last byte moves
  nothing, and the third guard is reached and throws.
\<close>

theorem oversized_frame_reaches_guard:
  "wire_frame ([1, 0, 0, 0, 0, 63, 249] @ replicate 16377 0 @ [206]) \<and>
   feed [[1, 0, 0, 0, 0, 63, 249] @ replicate 16377 0, [206]]
        (replicate 131072 0) (connectSocket_state (replicate 16384 0))
     = Some (Thrown (CopiedZeroFrame 16385 16384 0 1 1)
         \<lparr>framePos = 16384, frameSize = 16385,
           frameBuffer = [1, 0, 0, 0, 0, 63, 249] @ replicate 16377 0, dispatched = []\<rparr>)"
  by (simp add: callback_eval wire_frame_def payload_length_def)

text \<open>
  Claim C7, amended: for every stream of frames of the wire form, each of at most
  16384 bytes, split into chunks of at most 131072 bytes such that a chunk that
  starts inside a 7-byte header holds the rest of that header, every call of the
  callback returns: none of the three guards is reached. And whenever a pass of the
  loop reaches a guard with a copy of no bytes, the callback ends there by throwing
  the guard's error, having dispatched nothing in that pass.
\<close>

theorem valid_stream_reaches_no_guard:
  assumes "\<forall>f\<in>set frames. wire_frame f \<and> length f \<le> frameBuffer_capacity"
    and "concat chunks = concat frames"
    and "\<forall>c\<in>set chunks. length c \<le> read_buffer_capacity"
    and "completes_headers frames chunks"
    and "length buffer = read_buffer_capacity" and "length fb = frameBuffer_capacity"
  shows "(\<exists>s'. feed chunks buffer (connectSocket_state fb) = Some (Returned s')) \<and>
         (\<forall>n buf p s. p < n \<and> guard_reached n buf p s \<longrightarrow>
            (\<exists>e s'. onread_loop n buf p s = Some (Thrown e s') \<and> is_copied_zero e \<and>
                     dispatched s' = dispatched s))"
  using feed_valid_stream [OF assms] guard_reached_throws by blast

text \<open>The same frames, split inside the second header with an empty chunk between; and the state in
  which the third guard is reached.\<close>

theorem valid_stream_reaches_no_guard_witness:
  "wire_frame [1, 0, 1, 0, 0, 0, 8, 1, 2, 3, 4, 5, 6, 7, 8, 206] \<and>
   wire_frame [3, 0, 2, 0, 0, 0, 12, 9, 9, 9, 9, 9, 9, 9, 9, 9, 9, 9, 9, 206] \<and>
   completes_headers
     [[1, 0, 1, 0, 0, 0, 8, 1, 2, 3, 4, 5, 6, 7, 8, 206],
      [3, 0, 2, 0, 0, 0, 12, 9, 9, 9, 9, 9, 9, 9, 9, 9, 9, 9, 9, 206]]
     [[1, 0, 1, 0, 0, 0, 8, 1, 2, 3, 4, 5, 6, 7, 8, 206, 3, 0, 2, 0, 0], [],
      [0, 12, 9, 9, 9, 9, 9, 9, 9, 9, 9, 9, 9, 9, 206]] \<and>
   (\<exists>s'. feed [[1, 0, 1, 0, 0, 0, 8, 1, 2, 3, 4, 5, 6, 7, 8, 206, 3, 0, 2, 0, 0], [],
               [0, 12, 9, 9, 9, 9, 9, 9, 9, 9, 9, 9, 9, 9, 206]]
             (replicate 131072 0) (connectSocket_state (replicate 16384 0)) = Some (Returned s')) \<and>
   guard_reached 1 ([206] @ replicate 131071 0) 0
     \<lparr>framePos = 16384, frameSize = 16385,
       frameBuffer = [1, 0, 0, 0, 0, 63, 249] @ replicate 16377 0, dispatched = []\<rparr> \<and>
   (\<exists>e s'. onread_loop 1 ([206] @ replicate 131071 0) 0
       \<lparr>framePos = 16384, frameSize = 16385,
         frameBuffer = [1, 0, 0, 0, 0, 63, 249] @ replicate 16377 0, dispatched = []\<rparr>
        = Some (Thrown e s') \<and> is_copied_zero e)"
proof -
  let ?a = "[1, 0, 1, 0, 0, 0, 8, 1, 2, 3, 4, 5, 6, 7, 8, 206] :: byte list"
  let ?b = "[3, 0, 2, 0, 0, 0, 12, 9, 9, 9, 9, 9, 9, 9, 9, 9, 9, 9, 9, 206] :: byte list"
  let ?cs = "[[1, 0, 1, 0, 0, 0, 8, 1, 2, 3, 4, 5, 6, 7, 8, 206, 3, 0, 2, 0, 0], [],
      [0, 12, 9, 9, 9, 9, 9, 9, 9, 9, 9, 9, 9, 9, 206]] :: byte list list"
  let ?s = "\<lparr>framePos = 16384, frameSize = 16385,
       frameBuffer = [1, 0, 0, 0, 0, 63, 249] @ replicate 16377 0, dispatched = []\<rparr>"
  have wa: "wire_frame ?a" and wb: "wire_frame ?b"
    by (simp_all add: wire_frame_def payload_length_def be32_def)
  have h1: "\<forall>f\<in>set [?a, ?b]. wire_frame f \<and> length f \<le> frameBuffer_capacity"
    using wa wb by (simp add: frameBuffer_capacity_def)
  have h2: "concat ?cs = concat [?a, ?b]" by simp
  have h3: "\<forall>c\<in>set ?cs. length c \<le> read_buffer_capacity"
    by (simp add: read_buffer_capacity_def)
  have h4: "completes_headers [?a, ?b] ?cs"
    by (simp add: completes_headers_def)
  have h5: "length (replicate 131072 (0::byte)) = read_buffer_capacity"
    by (simp add: read_buffer_capacity_def)
  have h6: "length (replicate 16384 (0::byte)) = frameBuffer_capacity"
    by (simp add: frameBuffer_capacity_def)
  have g: "guard_reached 1 ([206] @ replicate 131071 0) 0 ?s"
    by (simp add: guard_reached_def copied_zero_def buf_copy_def)
  note t = valid_stream_reaches_no_guard [OF h1 h2 h3 h4 h5 h6]
  from t have "\<exists>s'. feed ?cs (replicate 131072 0) (connectSocket_state (replicate 16384 0)) = Some (Returned s')"
    by blast
  moreover from t g have "\<exists>e s'. onread_loop 1 ([206] @ replicate 131071 0) 0 ?s = Some (Thrown e s') \<and> is_copied_zero e"
    by (metis zero_less_one)
  ultimately show ?thesis using wa wb h4 g by blast
qed

end
